theory Spec2Isabelle
  imports Main "HOL-Library.Word"
begin

section \<open>JavaScript strings\<close>

text \<open>
  A JavaScript string is a sequence of UTF-16 code units; \<open>text[i]\<close>, \<open>length\<close>,
  \<open>startsWith\<close>, \<open>slice\<close>, \<open>split\<close> and \<open>trim\<close> all work on code units.
\<close>

type_synonym jschar = "16 word"
type_synonym jsstring = "jschar list"

text \<open>An ASCII literal of the source, as code units.\<close>

definition str :: "string \<Rightarrow> jsstring" where
  "str s = map of_char s"

text \<open>
  \<open>String.prototype.trim\<close> strips WhiteSpace and LineTerminator code points from both
  ends (ECMAScript: TAB, VT, FF, SP, NBSP, ZWNBSP, the Zs category, LF, CR, LS, PS).
\<close>

definition js_whitespace :: "jschar list" where
  "js_whitespace =
     [0x0009, 0x000A, 0x000B, 0x000C, 0x000D, 0x0020, 0x00A0, 0x1680,
      0x2000, 0x2001, 0x2002, 0x2003, 0x2004, 0x2005, 0x2006, 0x2007,
      0x2008, 0x2009, 0x200A, 0x2028, 0x2029, 0x202F, 0x205F, 0x3000, 0xFEFF]"

definition is_space :: "jschar \<Rightarrow> bool" where
  "is_space c = (c \<in> set js_whitespace)"

definition trim :: "jsstring \<Rightarrow> jsstring" where
  "trim s = rev (dropWhile is_space (rev (dropWhile is_space s)))"

section \<open>Sentence segmenter (\<open>splitBySentence\<close>)\<close>

text \<open>
  The code units of the literal \<open>'\<dots>!?\n'\<close> tested by \<open>includes(text[i])\<close>:
  U+3002 (ideographic full stop), U+FF01, U+FF1F (full-width ! and ?), \<open>!\<close>, \<open>?\<close>, LF.
\<close>

definition terminators :: "jschar list" where
  "terminators = [0x3002, 0xFF01, 0xFF1F, 0x21, 0x3F, 0x0A]"

definition is_terminator :: "jschar \<Rightarrow> bool" where
  "is_terminator c = (c \<in> set terminators)"

text \<open>
  The \<open>for\<close> loop of \<open>splitBySentence\<close>: the remaining text, with the loop variables
  \<open>chunks\<close> and \<open>current\<close>; it returns both at the end of the text.
\<close>

fun split_loop :: "jsstring \<Rightarrow> jsstring list \<Rightarrow> jsstring \<Rightarrow> jsstring list \<times> jsstring" where
  "split_loop [] chunks current = (chunks, current)"
| "split_loop (c # cs) chunks current =
     (let current' = current @ [c] in
      if is_terminator c then
        (let trimmed = trim current' in
         split_loop cs (if trimmed \<noteq> [] then chunks @ [trimmed] else chunks) [])
      else split_loop cs chunks current')"

definition splitBySentence :: "jsstring \<Rightarrow> jsstring list" where
  "splitBySentence text =
     (let (chunks, current) = split_loop text [] [];
          rest = trim current;
          chunks' = (if rest \<noteq> [] then chunks @ [rest] else chunks)
      in if length chunks' > 0 then chunks' else [text])"

text \<open>
  The reading of the specification, for comparison: the text is cut after every
  terminator, which gives the raw pieces (the last one is the trailing content, possibly
  empty); what is emitted are the trimmed pieces that are not empty.
\<close>

fun spec_pieces :: "jsstring \<Rightarrow> jsstring list" where
  "spec_pieces [] = [[]]"
| "spec_pieces (c # cs) =
     (if is_terminator c then [c] # spec_pieces cs
      else (case spec_pieces cs of [] \<Rightarrow> [[c]] | p # ps \<Rightarrow> (c # p) # ps))"

definition emitted :: "jsstring list \<Rightarrow> jsstring list" where
  "emitted ps = filter (\<lambda>p. p \<noteq> []) (map trim ps)"

text \<open>The first piece extended to the left by the characters already read.\<close>

definition prepend :: "jsstring \<Rightarrow> jsstring list \<Rightarrow> jsstring list" where
  "prepend cur ps = (cur @ hd ps) # tl ps"

section \<open>Turn stream: consumer and assembler (\<open>sendMessage\<close>)\<close>

subsection \<open>Payloads\<close>

text \<open>
  The value \<open>JSON.parse\<close> returns. A number is kept as the text that string conversion
  gives it. Objects that define their own \<open>toString\<close> or \<open>valueOf\<close> are outside the
  model, so string conversion is total. \<open>JSON.parse\<close> itself is a parameter \<open>parse\<close> of
  the functions below; \<open>None\<close> is its \<open>SyntaxError\<close>.
\<close>

datatype jsval =
    Undefined | Null | Bool bool | Num jsstring | Str jsstring
  | Arr "jsval list" | Obj "(jsstring \<times> jsval) list"

type_synonym parser = "jsstring \<Rightarrow> jsval option"

text \<open>Reading a property of \<open>null\<close> or \<open>undefined\<close> throws a \<open>TypeError\<close>.\<close>

definition read_throws :: "jsval \<Rightarrow> bool" where
  "read_throws data = (data = Null \<or> data = Undefined)"

text \<open>
  \<open>data.name\<close> where the read does not throw; a missing property, and any of the names
  read here on a primitive or an array, is \<open>undefined\<close>.
\<close>

definition get_prop :: "jsval \<Rightarrow> string \<Rightarrow> jsval" where
  "get_prop data name =
     (case data of
        Obj kvs \<Rightarrow> (case map_of kvs (str name) of Some v \<Rightarrow> v | None \<Rightarrow> Undefined)
      | _ \<Rightarrow> Undefined)"

fun join_comma :: "jsstring list \<Rightarrow> jsstring" where
  "join_comma [] = []"
| "join_comma [s] = s"
| "join_comma (s # t # ss) = s @ str '','' @ join_comma (t # ss)"

text \<open>String conversion, as \<open>+=\<close> and template literals apply it.\<close>

fun to_string :: "jsval \<Rightarrow> jsstring" where
  "to_string Undefined = str ''undefined''"
| "to_string Null = str ''null''"
| "to_string (Bool b) = (if b then str ''true'' else str ''false'')"
| "to_string (Num s) = s"
| "to_string (Str s) = s"
| "to_string (Arr vs) =
     join_comma (map (\<lambda>v. if v = Undefined \<or> v = Null then [] else to_string v) vs)"
| "to_string (Obj kvs) = str ''[object Object]''"

subsection \<open>The page and the variables of one turn\<close>

text \<open>What a message body shows: \<open>innerHTML\<close> of the element \<open>.msg-content\<close>.\<close>

datatype body_html =
    Blank
  | Markdown jsstring          \<comment> \<open>\<open>marked.parse(rawText)\<close>\<close>
  | ErrorText jsstring         \<comment> \<open>the span \<open>Error: ${data.error}\<close>\<close>
  | ConnectionError jsstring   \<comment> \<open>the span \<open>Connection error: ${err.message}\<close>\<close>

text \<open>
  A message element made by \<open>createStreamingMessage\<close>: whether it still has the id
  \<open>streaming-msg\<close>, its \<open>className\<close>, the texts of the \<open>.tts-btn\<close> buttons in its header,
  whether its body has the class \<open>streaming-cursor\<close>, and the body's content.
\<close>

record msg_el =
  el_id :: bool
  el_class :: jsstring
  el_tts :: "jsstring list"
  el_cursor :: bool
  el_html :: body_html

text \<open>
  Calls that leave the message elements and the variables of the turn alone are kept as
  a log, in call order; \<open>PlayTTS text k\<close> is \<open>playTTS(text, ttsBtn)\<close> for a button in the
  header of element \<open>k\<close>.
\<close>

datatype ui_call =
    AddUserMessage jsstring
  | AddToolStart jsval jsval
  | AddToolDone jsval jsval jsval
  | ShowConfirmAction jsval
  | ShowLLMRetryStatus jsval
  | ClearLLMRetryStatus
  | ClearToolStatus
  | PlayTTS jsstring nat
  | RefreshMemory

text \<open>
  The globals \<open>isStreaming\<close> and \<open>currentMode\<close>, the expression shown, the message
  elements in document order, the call log, and the locals of \<open>sendMessage\<close>:
  \<open>streamBody\<close> (the index of its element), \<open>rawText\<close> and \<open>currentEvent\<close>. The field
  \<open>delivered\<close> records each (event type, payload) pair handed to the handlers, that is
  each data line whose payload parsed.
\<close>

record turn =
  isStreaming :: bool
  currentMode :: jsval
  expression :: jsval
  doc :: "msg_el list"
  ui_log :: "ui_call list"
  delivered :: "(jsstring \<times> jsval) list"
  streamBody :: "nat option"
  rawText :: jsstring
  currentEvent :: jsstring

definition log_call :: "ui_call \<Rightarrow> turn \<Rightarrow> turn" where
  "log_call c st = st\<lparr>ui_log := ui_log st @ [c]\<rparr>"

text \<open>\<open>document.getElementById('streaming-msg')\<close>: the first element with the id.\<close>

fun first_with_id :: "msg_el list \<Rightarrow> nat option" where
  "first_with_id [] = None"
| "first_with_id (e # es) = (if el_id e then Some 0 else map_option Suc (first_with_id es))"

definition upd_el :: "nat \<Rightarrow> (msg_el \<Rightarrow> msg_el) \<Rightarrow> turn \<Rightarrow> turn" where
  "upd_el k f st = (if k < length (doc st) then st\<lparr>doc := (doc st)[k := f (doc st ! k)]\<rparr> else st)"

text \<open>An update of the body \<open>streamBody\<close> refers to, if there is one.\<close>

definition upd_body :: "(msg_el \<Rightarrow> msg_el) \<Rightarrow> turn \<Rightarrow> turn" where
  "upd_body f st = (case streamBody st of None \<Rightarrow> st | Some k \<Rightarrow> upd_el k f st)"

definition createStreamingMessage :: "turn \<Rightarrow> turn" where
  "createStreamingMessage st =
     st\<lparr>doc := doc st @
            [\<lparr>el_id = True,
              el_class = str ''msg msg-assistant '' @ to_string (currentMode st),
              el_tts = [], el_cursor = True, el_html = Blank\<rparr>],
        streamBody := Some (length (doc st))\<rparr>"

text \<open>\<open>if (!streamBody) streamBody = createStreamingMessage()\<close>\<close>

definition ensure_body :: "turn \<Rightarrow> turn" where
  "ensure_body st = (if streamBody st = None then createStreamingMessage st else st)"

subsection \<open>The handlers\<close>

definition on_token :: "turn \<Rightarrow> jsval \<Rightarrow> turn" where
  "on_token st data =
     (let st1 = log_call ClearLLMRetryStatus (ensure_body st) in
      if read_throws data then st1
      else
        (let st2 = st1\<lparr>rawText := rawText st1 @ to_string (get_prop data ''token'')\<rparr>
         in upd_body (\<lambda>e. e\<lparr>el_html := Markdown (rawText st2)\<rparr>) st2))"

definition on_done :: "turn \<Rightarrow> jsval \<Rightarrow> turn" where
  "on_done st data =
     (let st1 = log_call ClearLLMRetryStatus st in
      if read_throws data then st1
      else
        (let st2 = st1\<lparr>currentMode := get_prop data ''mode'', expression := get_prop data ''expression''\<rparr>;
             st3 = upd_body (\<lambda>e. e\<lparr>el_cursor := False\<rparr>) st2;
             st4 = (case first_with_id (doc st3) of
                      None \<Rightarrow> st3
                    | Some k \<Rightarrow>
                        (let st' = upd_el k (\<lambda>e. e\<lparr>el_class :=
                                      str ''msg msg-assistant '' @ to_string (get_prop data ''mode''),
                                    el_id := False\<rparr>) st3
                         in if rawText st' \<noteq> []
                            then log_call (PlayTTS (rawText st') k)
                                   (upd_el k (\<lambda>e. e\<lparr>el_tts := el_tts e @ [rawText st']\<rparr>) st')
                            else st'))
         in upd_body (\<lambda>e. e\<lparr>el_html := Markdown (rawText st4)\<rparr>) st4))"

definition on_error :: "turn \<Rightarrow> jsval \<Rightarrow> turn" where
  "on_error st data =
     (let st1 = ensure_body (log_call ClearLLMRetryStatus st) in
      if read_throws data then st1
      else upd_body (\<lambda>e. e\<lparr>el_html := ErrorText (to_string (get_prop data ''error'')),
                             el_cursor := False\<rparr>) st1)"

text \<open>
  The chain of \<open>if (currentEvent === \<dots>)\<close> inside the \<open>try\<close>; an exception leaves what
  was done before it and is swallowed by the empty \<open>catch\<close>.
\<close>

definition dispatch :: "turn \<Rightarrow> jsval \<Rightarrow> turn" where
  "dispatch st data =
     (let ev = currentEvent st in
      if ev = str ''tool_start'' then
        (if read_throws data then st
         else log_call (AddToolStart (get_prop data ''tool'') (get_prop data ''call_id'')) st)
      else if ev = str ''tool_done'' then
        (if read_throws data then st
         else log_call (AddToolDone (get_prop data ''tool'') (get_prop data ''call_id'')
                          (get_prop data ''summary'')) st)
      else if ev = str ''token'' then on_token st data
      else if ev = str ''confirm_action'' then log_call (ShowConfirmAction data) st
      else if ev = str ''llm_retry'' then log_call (ShowLLMRetryStatus data) st
      else if ev = str ''done'' then on_done st data
      else if ev = str ''error'' then on_error st data
      else st)"

subsection \<open>Lines\<close>

definition js_startsWith :: "jsstring \<Rightarrow> jsstring \<Rightarrow> bool" where
  "js_startsWith s p = (take (length p) s = p)"

definition is_event_line :: "jsstring \<Rightarrow> bool" where
  "is_event_line line = js_startsWith line (str ''event: '')"

definition is_data_line :: "jsstring \<Rightarrow> bool" where
  "is_data_line line = js_startsWith line (str ''data: '')"

text \<open>The body of \<open>for (const line of lines)\<close>.\<close>

definition process_line :: "parser \<Rightarrow> turn \<Rightarrow> jsstring \<Rightarrow> turn" where
  "process_line parse st line =
     (if is_event_line line then st\<lparr>currentEvent := trim (drop 7 line)\<rparr>
      else if is_data_line line then
        (let st1 = (case parse (drop 6 line) of
                      None \<Rightarrow> st
                    | Some data \<Rightarrow>
                        dispatch (st\<lparr>delivered := delivered st @ [(currentEvent st, data)]\<rparr>) data)
         in st1\<lparr>currentEvent := str ''message''\<rparr>)
      else st)"

text \<open>\<open>buffer.split('\n')\<close>: never empty, the last element is what follows the last LF.\<close>

fun js_split :: "jsstring \<Rightarrow> jsstring list" where
  "js_split [] = [[]]"
| "js_split (c # cs) =
     (if c = 0x0A then [] # js_split cs
      else (case js_split cs of [] \<Rightarrow> [[c]] | l # ls \<Rightarrow> (c # l) # ls))"

text \<open>\<open>lines.pop() || ''\<close>\<close>

definition pop_or_empty :: "jsstring list \<Rightarrow> jsstring" where
  "pop_or_empty lines = (if lines = [] then [] else last lines)"

subsection \<open>The read loop\<close>

text \<open>
  \<open>new TextDecoder()\<close> with \<open>decode(value, {stream: true})\<close> is a parameter: a machine
  \<open>dstep\<close> that reads one byte, moves to its next state (the bytes of an unfinished
  character are part of it) and gives the code units that byte completes.
\<close>

type_synonym 'd decoder = "'d \<Rightarrow> 8 word \<Rightarrow> 'd \<times> jsstring"

fun decode :: "'d decoder \<Rightarrow> 'd \<Rightarrow> 8 word list \<Rightarrow> 'd \<times> jsstring" where
  "decode dstep d [] = (d, [])"
| "decode dstep d (b # bs) =
     (let (d1, s) = dstep d b; (d2, t) = decode dstep d1 bs in (d2, s @ t))"

text \<open>
  The \<open>while (true)\<close> loop over the chunks that \<open>reader.read()\<close> delivers, with the
  decoder state, \<open>buffer\<close> and the rest of the state; it ends when the reads do.
\<close>

fun read_loop :: "'d decoder \<Rightarrow> parser \<Rightarrow> 'd \<times> jsstring \<times> turn \<Rightarrow> 8 word list list
    \<Rightarrow> 'd \<times> jsstring \<times> turn" where
  "read_loop dstep parse (d, buffer, st) [] = (d, buffer, st)"
| "read_loop dstep parse (d, buffer, st) (v # vs) =
     (let (d1, s) = decode dstep d v;
          lines = js_split (buffer @ s);
          buffer1 = pop_or_empty lines;
          st1 = foldl (process_line parse) st (butlast lines)
      in read_loop dstep parse (d1, buffer1, st1) vs)"

text \<open>How the stream ends: \<open>done\<close> from \<open>reader.read()\<close>, or an exception with its message.\<close>

datatype stream_end = Closed | Failed jsstring

text \<open>The \<open>catch (err)\<close> block.\<close>

definition on_connection_error :: "turn \<Rightarrow> jsstring \<Rightarrow> turn" where
  "on_connection_error st msg =
     upd_body (\<lambda>e. e\<lparr>el_html := ConnectionError msg, el_cursor := False\<rparr>)
       (ensure_body (log_call ClearLLMRetryStatus st))"

text \<open>The fallback after the \<open>try\<close>.\<close>

definition fallback :: "turn \<Rightarrow> turn" where
  "fallback st =
     (case first_with_id (doc st) of
        None \<Rightarrow> st
      | Some k \<Rightarrow>
          if rawText st = [] then st
          else
            (let st1 = upd_body (\<lambda>e. e\<lparr>el_cursor := False\<rparr>)
                         (upd_el k (\<lambda>e. e\<lparr>el_id := False\<rparr>) st)
             in if el_tts (doc st1 ! k) = []
                then log_call (PlayTTS (rawText st1) k)
                       (upd_el k (\<lambda>e. e\<lparr>el_tts := el_tts e @ [rawText st1]\<rparr>) st1)
                else st1))"

definition cleanup :: "turn \<Rightarrow> turn" where
  "cleanup st =
     (log_call RefreshMemory (log_call ClearToolStatus (log_call ClearLLMRetryStatus st)))
       \<lparr>isStreaming := False\<rparr>"

text \<open>
  \<open>sendMessage\<close> for the input \<open>chatInput.value\<close>, the chunks of the response body and
  the way the stream ends. A failed \<open>fetch\<close> is \<open>Failed\<close> with no chunk.
\<close>

definition sendMessage :: "'d decoder \<Rightarrow> 'd \<Rightarrow> parser \<Rightarrow> turn \<Rightarrow> jsstring \<Rightarrow> 8 word list list
    \<Rightarrow> stream_end \<Rightarrow> turn" where
  "sendMessage dstep d0 parse st input chunks ending =
     (let text = trim input in
      if text = [] \<or> isStreaming st then st
      else
        (let st1 = (log_call (AddUserMessage text) st)
                     \<lparr>isStreaming := True, streamBody := None, rawText := [],
                      currentEvent := str ''message''\<rparr>;
             (d, buffer, st2) = read_loop dstep parse (d0, [], st1) chunks;
             st3 = (case ending of Closed \<Rightarrow> st2 | Failed msg \<Rightarrow> on_connection_error st2 msg)
         in cleanup (fallback st3)))"

text \<open>
  The reference the consumer is compared with: the whole stream is decoded at once and
  every complete line is processed in order; what follows the last LF stays in the
  buffer.
\<close>

definition whole_lines :: "'d decoder \<Rightarrow> parser \<Rightarrow> 'd \<Rightarrow> turn \<Rightarrow> 8 word list
    \<Rightarrow> 'd \<times> jsstring \<times> turn" where
  "whole_lines dstep parse d0 st bytes =
     (let (d, s) = decode dstep d0 bytes; lines = js_split s
      in (d, last lines, foldl (process_line parse) st (butlast lines)))"

text \<open>\<open>streamBody\<close>, when set, refers to an element of the page.\<close>

definition body_ok :: "turn \<Rightarrow> bool" where
  "body_ok st = (case streamBody st of None \<Rightarrow> True | Some k \<Rightarrow> k < length (doc st))"

text \<open>
  Concrete values for the examples: a parser that takes any payload as the text of a
  token or of an error (with the mode \<open>angel\<close> and the expression \<open>smile\<close>), the state at the start of a turn on an empty page, and the
  state after the token \<open>Hi\<close> when an \<open>error\<close> event type has just been read.
\<close>

definition parse_text :: parser where
  "parse_text s = Some (Obj [(str ''token'', Str s), (str ''error'', Str s),
                             (str ''mode'', Str (str ''angel'')),
                             (str ''expression'', Str (str ''smile''))])"

definition turn0 :: turn where
  "turn0 = \<lparr>isStreaming = True, currentMode = Str (str ''angel''),
     expression = Str (str ''smile''), doc = [], ui_log = [], delivered = [],
     streamBody = None, rawText = [], currentEvent = str ''message''\<rparr>"

definition typing0 :: turn where
  "typing0 = turn0\<lparr>doc := [\<lparr>el_id = True, el_class = str ''msg msg-assistant angel'',
                             el_tts = [], el_cursor = True, el_html = Markdown (str ''Hi'')\<rparr>],
                    streamBody := Some 0, rawText := str ''Hi'',
                    currentEvent := str ''error''\<rparr>"

section \<open>Narration (\<open>playTTS\<close>, \<open>stopTTS\<close>)\<close>

subsection \<open>State\<close>

text \<open>
  A \<open>.tts-btn\<close> button: its \<open>_ttsText\<close>, \<open>disabled\<close>, the classes \<open>playing\<close> and
  \<open>loading\<close>, its face (\<open>innerHTML\<close> and \<open>title\<close>, always set together) and what
  \<open>onclick\<close> does.
\<close>

datatype face = FacePlay | FaceStop | FaceLoading

datatype click = DoPlay jsstring | DoStop

record tts_btn =
  ttsText :: jsstring
  disabled :: bool
  playing :: bool
  loading :: bool
  face :: face
  onclick :: click

text \<open>
  The promise of one \<open>fetch('/api/tts', \<dots>)\<close>: pending, fulfilled with a response
  (\<open>resp.ok\<close> or not), rejected (with \<open>AbortError\<close> or another error), and at last
  consumed, when the body has been read or has failed.
\<close>

datatype err_name = AbortError | OtherError

datatype fetch_state = Pending | Fulfilled bool | Rejected err_name | Consumed

text \<open>A fetch is in flight from the call until its body is consumed or it is rejected.\<close>

fun in_flight :: "fetch_state \<Rightarrow> bool" where
  "in_flight Pending = True"
| "in_flight (Fulfilled ok) = True"
| "in_flight (Rejected e) = False"
| "in_flight Consumed = False"

text \<open>
  One \<open>new Audio(url)\<close> with its object URL: the state of the element (\<open>Playing\<close> is
  the only audible one), the promise \<open>audio.play()\<close> returned, how many times
  \<open>URL.revokeObjectURL(url)\<close> was called, and whether \<open>resolve()\<close> of the promise the
  loop awaits was called.
\<close>

datatype audio_state = Loading | Playing | Paused | Ended | Errored

datatype promise = PPending | PResolved | PRejected

record audio =
  a_state :: audio_state
  a_play :: promise
  a_revoked :: nat
  a_resolved :: bool

text \<open>Where an invocation of \<open>playTTS\<close> is suspended: the \<open>await\<close> and the loop index.\<close>

datatype pc = AwaitResp nat | AwaitErrBody nat | AwaitBlob nat | AwaitPlayback nat | Returned

text \<open>
  One invocation of \<open>playTTS\<close>, which owns one \<open>AbortController\<close>: its arguments, its
  chunks, \<open>ac.signal.aborted\<close>, where it is, the fetches it has issued and the audio
  elements it has created (both by chunk index), and whether it called
  \<open>console.error\<close>.
\<close>

record invocation =
  i_text :: jsstring
  i_btn :: nat
  i_chunks :: "jsstring list"
  i_aborted :: bool
  i_pc :: pc
  i_fetches :: "fetch_state list"
  i_audios :: "audio list"
  i_reported :: bool

text \<open>What \<open>stopTTS\<close> and \<open>fetch\<close> do, in the order they do it.\<close>

datatype action = ActAbort nat | ActPause nat nat | ActReset nat | ActFetch nat nat

text \<open>
  The globals \<open>_ttsAbort\<close> (the invocation whose controller it is) and \<open>currentAudio\<close>
  (invocation and chunk index), the buttons of the page, all invocations so far, and
  the actions so far.
\<close>

record tts =
  ttsAbort :: "nat option"
  currentAudio :: "(nat \<times> nat) option"
  buttons :: "tts_btn list"
  invs :: "invocation list"
  trace :: "action list"

definition tts_init :: tts where
  "tts_init = \<lparr>ttsAbort = None, currentAudio = None, buttons = [], invs = [], trace = []\<rparr>"

definition upd_inv :: "nat \<Rightarrow> (invocation \<Rightarrow> invocation) \<Rightarrow> tts \<Rightarrow> tts" where
  "upd_inv a f s = s\<lparr>invs := (invs s)[a := f (invs s ! a)]\<rparr>"

definition upd_audio :: "nat \<Rightarrow> nat \<Rightarrow> (audio \<Rightarrow> audio) \<Rightarrow> tts \<Rightarrow> tts" where
  "upd_audio a i f s =
     upd_inv a (\<lambda>v. v\<lparr>i_audios := (i_audios v)[i := f (i_audios v ! i)]\<rparr>) s"

definition upd_btn :: "nat \<Rightarrow> (tts_btn \<Rightarrow> tts_btn) \<Rightarrow> tts \<Rightarrow> tts" where
  "upd_btn b f s = s\<lparr>buttons := (buttons s)[b := f (buttons s ! b)]\<rparr>"

definition act :: "action \<Rightarrow> tts \<Rightarrow> tts" where
  "act x s = s\<lparr>trace := trace s @ [x]\<rparr>"

subsection \<open>\<open>stopTTS\<close> and \<open>resetTTSBtn\<close>\<close>

text \<open>\<open>audio.pause()\<close>\<close>

definition pause :: "audio \<Rightarrow> audio" where
  "pause au = (if a_state au = Loading \<or> a_state au = Playing then au\<lparr>a_state := Paused\<rparr> else au)"

text \<open>\<open>URL.revokeObjectURL(url); resolve();\<close>, the end of each of the four handlers.\<close>

definition release :: "audio \<Rightarrow> audio" where
  "release au = au\<lparr>a_revoked := a_revoked au + 1, a_resolved := True\<rparr>"

text \<open>
  \<open>ac.abort()\<close>: nothing if the signal is aborted already; otherwise the signal is
  aborted, every pending fetch made with it is rejected with \<open>AbortError\<close>, and the
  \<open>abort\<close> listener of every audio element of the invocation runs
  (\<open>audio.pause(); URL.revokeObjectURL(url); resolve();\<close>).
\<close>

definition abort_fetch :: "fetch_state \<Rightarrow> fetch_state" where
  "abort_fetch f = (if f = Pending then Rejected AbortError else f)"

definition abort :: "nat \<Rightarrow> tts \<Rightarrow> tts" where
  "abort a s =
     (if a < length (invs s) \<and> \<not> i_aborted (invs s ! a) then
        act (ActAbort a)
          (upd_inv a (\<lambda>v. v\<lparr>i_aborted := True,
                             i_fetches := map abort_fetch (i_fetches v),
                             i_audios := map (\<lambda>au. release (pause au)) (i_audios v)\<rparr>) s)
      else s)"

definition reset_btn :: "jsstring \<Rightarrow> tts_btn \<Rightarrow> tts_btn" where
  "reset_btn t b = b\<lparr>disabled := False, playing := False, loading := False,
                      face := FacePlay, onclick := DoPlay t\<rparr>"

definition resetTTSBtn :: "nat \<Rightarrow> jsstring \<Rightarrow> tts \<Rightarrow> tts" where
  "resetTTSBtn b t s = upd_btn b (reset_btn t) s"

text \<open>The buttons \<open>querySelectorAll('.tts-btn.playing, .tts-btn.loading')\<close> finds.\<close>

definition busy :: "tts_btn \<Rightarrow> bool" where
  "busy b = (playing b \<or> loading b)"

definition stopTTS :: "tts \<Rightarrow> tts" where
  "stopTTS s =
     (let s1 = (case ttsAbort s of
                  Some a \<Rightarrow> (abort a s)\<lparr>ttsAbort := None\<rparr>
                | None \<Rightarrow> s);
          s2 = (case currentAudio s1 of
                  Some (a, i) \<Rightarrow> (act (ActPause a i) (upd_audio a i pause s1))\<lparr>currentAudio := None\<rparr>
                | None \<Rightarrow> s1)
      in s2\<lparr>buttons := map (\<lambda>b. if busy b then reset_btn (ttsText b) b else b) (buttons s2),
             trace := trace s2 @ map ActReset (filter (\<lambda>k. busy (buttons s2 ! k))
                                                [0..<length (buttons s2)])\<rparr>)"

subsection \<open>\<open>playTTS\<close>\<close>

text \<open>
  \<open>fetch('/api/tts', {\<dots>, signal: ac.signal})\<close> for chunk \<open>j\<close>, which is always the next
  index; with a signal that is aborted already the promise is rejected at once.
\<close>

definition issue_fetch :: "nat \<Rightarrow> nat \<Rightarrow> tts \<Rightarrow> tts" where
  "issue_fetch a j s =
     act (ActFetch a j)
       (upd_inv a (\<lambda>v. v\<lparr>i_fetches := i_fetches v @
                            [if i_aborted v then Rejected AbortError else Pending]\<rparr>) s)"

text \<open>
  From the call to the first \<open>await\<close>: \<open>stopTTS()\<close>, the new controller, the button in
  its loading state, the chunks, the fetch for chunk 0, and the first pass through the
  loop head up to \<open>await nextResp\<close>.
\<close>

definition playTTS :: "jsstring \<Rightarrow> nat \<Rightarrow> tts \<Rightarrow> tts" where
  "playTTS t b s =
     (let s1 = stopTTS s;
          a = length (invs s1);
          s2 = s1\<lparr>ttsAbort := Some a,
                  invs := invs s1 @
                    [\<lparr>i_text = t, i_btn = b, i_chunks = splitBySentence t, i_aborted = False,
                      i_pc = AwaitResp 0, i_fetches = [], i_audios = [], i_reported = False\<rparr>]\<rparr>;
          s3 = upd_btn b (\<lambda>x. x\<lparr>disabled := True, loading := True, face := FaceLoading\<rparr>) s2
      in issue_fetch a 0 s3)"

text \<open>After the loop: \<open>if (!ac.signal.aborted) { currentAudio = null; resetTTSBtn(btn, text); }\<close>\<close>

definition after_loop :: "nat \<Rightarrow> tts \<Rightarrow> tts" where
  "after_loop a s =
     (let v = invs s ! a;
          s1 = (if \<not> i_aborted v then resetTTSBtn (i_btn v) (i_text v) (s\<lparr>currentAudio := None\<rparr>)
                else s)
      in upd_inv a (\<lambda>v. v\<lparr>i_pc := Returned\<rparr>) s1)"

text \<open>
  The loop head for index \<open>j\<close>: \<open>i < chunks.length\<close>, \<open>if (ac.signal.aborted) break;\<close>,
  then \<open>await nextResp\<close>.
\<close>

definition loop_head :: "nat \<Rightarrow> nat \<Rightarrow> tts \<Rightarrow> tts" where
  "loop_head a j s =
     (let v = invs s ! a in
      if j < length (i_chunks v) \<and> \<not> i_aborted v
      then upd_inv a (\<lambda>v. v\<lparr>i_pc := AwaitResp j\<rparr>) s
      else after_loop a s)"

text \<open>
  The \<open>catch (e)\<close> block: \<open>console.error\<close> unless \<open>e.name\<close> is \<open>AbortError\<close>, and the
  button reset unless the signal is aborted.
\<close>

definition catch_block :: "nat \<Rightarrow> err_name \<Rightarrow> tts \<Rightarrow> tts" where
  "catch_block a e s =
     (let v = invs s ! a;
          s1 = (if \<not> i_aborted v then resetTTSBtn (i_btn v) (i_text v) s else s)
      in upd_inv a (\<lambda>v. v\<lparr>i_pc := Returned,
                            i_reported := (i_reported v \<or> e \<noteq> AbortError)\<rparr>) s1)"

text \<open>
  The invocation goes on after \<open>await nextResp\<close> once that promise is settled, and after
  the \<open>await new Promise(\<dots>)\<close> once \<open>resolve()\<close> was called.
\<close>

definition resume :: "nat \<Rightarrow> tts \<Rightarrow> tts" where
  "resume a s =
     (if a < length (invs s) then
        (let v = invs s ! a in
         case i_pc v of
           AwaitResp i \<Rightarrow>
             (if i < length (i_fetches v) then
                (case i_fetches v ! i of
                   Rejected e \<Rightarrow> catch_block a e s
                 | Fulfilled ok \<Rightarrow>
                     if \<not> ok then upd_inv a (\<lambda>v. v\<lparr>i_pc := AwaitErrBody i\<rparr>) s
                     else
                       upd_inv a (\<lambda>v. v\<lparr>i_pc := AwaitBlob i\<rparr>)
                         (if i + 1 < length (i_chunks v) then issue_fetch a (i + 1) s else s)
                 | _ \<Rightarrow> s)
              else s)
         | AwaitPlayback i \<Rightarrow>
             (if i < length (i_audios v) \<and> a_resolved (i_audios v ! i)
              then loop_head a (i + 1) s else s)
         | _ \<Rightarrow> s)
      else s)"

text \<open>How reading a body ends.\<close>

datatype body_outcome = BodyOk | BodyFails err_name

text \<open>
  The invocation goes on after \<open>await resp.json().catch(\<dots>)\<close>, where it throws an
  \<open>Error\<close>, and after \<open>await resp.blob()\<close>, where a failure is thrown and success leads
  to the check of the signal, the new audio element and \<open>audio.play()\<close>.
\<close>

definition body_done :: "nat \<Rightarrow> body_outcome \<Rightarrow> tts \<Rightarrow> tts" where
  "body_done a out s =
     (if a < length (invs s) then
        (let v = invs s ! a in
         case i_pc v of
           AwaitErrBody i \<Rightarrow>
             catch_block a OtherError
               (upd_inv a (\<lambda>v. v\<lparr>i_fetches := (i_fetches v)[i := Consumed]\<rparr>) s)
         | AwaitBlob i \<Rightarrow>
             (let s1 = upd_inv a (\<lambda>v. v\<lparr>i_fetches := (i_fetches v)[i := Consumed]\<rparr>) s in
              case out of
                BodyFails e \<Rightarrow> catch_block a e s1
              | BodyOk \<Rightarrow>
                  if i_aborted v then after_loop a s1
                  else
                    (let s2 = (upd_inv a (\<lambda>v. v\<lparr>i_audios := i_audios v @
                                   [\<lparr>a_state = Loading, a_play = PPending, a_revoked = 0,
                                     a_resolved = False\<rparr>],
                                 i_pc := AwaitPlayback i\<rparr>) s1)\<lparr>currentAudio := Some (a, i)\<rparr>
                     in if i = 0
                        then upd_btn (i_btn v) (\<lambda>x. x\<lparr>disabled := False, loading := False,
                               playing := True, face := FaceStop, onclick := DoStop\<rparr>) s2
                        else s2))
         | _ \<Rightarrow> s)
      else s)"

subsection \<open>Events\<close>

text \<open>
  What the page, the network and the audio elements can do between two pieces of
  \<open>playTTS\<close>: a finalized message narrates its text with a new button, the user clicks a
  button, a pending fetch is settled, an invocation goes on after an \<open>await\<close>, and an
  audio element starts to play, has its \<open>play()\<close> rejected, ends or fails. An event that
  cannot happen in a state leaves the state as it is.
\<close>

datatype fetch_outcome = RespOk | RespBad | NetFail

datatype event =
    Narrate jsstring
  | Click nat
  | FetchSettles nat nat fetch_outcome
  | Resume nat
  | BodyDone nat body_outcome
  | PlayStarted nat nat
  | PlayRejected nat nat
  | AudioEnded nat nat
  | AudioError nat nat

definition makeTTSButton :: "jsstring \<Rightarrow> tts_btn" where
  "makeTTSButton t = \<lparr>ttsText = t, disabled = False, playing = False, loading = False,
                       face = FacePlay, onclick = DoPlay t\<rparr>"

definition settle :: "fetch_outcome \<Rightarrow> fetch_state \<Rightarrow> fetch_state" where
  "settle out f =
     (if f = Pending
      then (case out of RespOk \<Rightarrow> Fulfilled True | RespBad \<Rightarrow> Fulfilled False
                      | NetFail \<Rightarrow> Rejected OtherError)
      else f)"

definition has_audio :: "tts \<Rightarrow> nat \<Rightarrow> nat \<Rightarrow> bool" where
  "has_audio s a i = (a < length (invs s) \<and> i < length (i_audios (invs s ! a)))"

definition the_audio :: "tts \<Rightarrow> nat \<Rightarrow> nat \<Rightarrow> audio" where
  "the_audio s a i = i_audios (invs s ! a) ! i"

fun step :: "tts \<Rightarrow> event \<Rightarrow> tts" where
  "step s (Narrate t) =
     playTTS t (length (buttons s)) (s\<lparr>buttons := buttons s @ [makeTTSButton t]\<rparr>)"
| "step s (Click b) =
     (if b < length (buttons s) \<and> \<not> disabled (buttons s ! b)
      then (case onclick (buttons s ! b) of DoPlay t \<Rightarrow> playTTS t b s | DoStop \<Rightarrow> stopTTS s)
      else s)"
| "step s (FetchSettles a j out) =
     (if a < length (invs s) \<and> j < length (i_fetches (invs s ! a))
      then upd_inv a (\<lambda>v. v\<lparr>i_fetches := (i_fetches v)[j := settle out (i_fetches v ! j)]\<rparr>) s
      else s)"
| "step s (Resume a) = resume a s"
| "step s (BodyDone a out) = body_done a out s"
| "step s (PlayStarted a i) =
     (if has_audio s a i \<and> a_state (the_audio s a i) = Loading \<and> a_play (the_audio s a i) = PPending
      then upd_audio a i (\<lambda>au. au\<lparr>a_state := Playing, a_play := PResolved\<rparr>) s
      else s)"
| "step s (PlayRejected a i) =
     (if has_audio s a i \<and> a_play (the_audio s a i) = PPending
      then upd_audio a i (\<lambda>au. release (pause (au\<lparr>a_play := PRejected\<rparr>))) s
      else s)"
| "step s (AudioEnded a i) =
     (if has_audio s a i \<and> a_state (the_audio s a i) = Playing
      then upd_audio a i (\<lambda>au. release (au\<lparr>a_state := Ended\<rparr>)) s
      else s)"
| "step s (AudioError a i) =
     (if has_audio s a i \<and> a_state (the_audio s a i) \<noteq> Ended \<and> a_state (the_audio s a i) \<noteq> Errored
      then upd_audio a i (\<lambda>au. release (au\<lparr>a_state := Errored\<rparr>)) s
      else s)"

definition run :: "tts \<Rightarrow> event list \<Rightarrow> tts" where
  "run s evs = foldl step s evs"

text \<open>An invocation is active while it has neither returned nor been cancelled.\<close>

definition active :: "tts \<Rightarrow> nat \<Rightarrow> bool" where
  "active s a = (a < length (invs s) \<and> \<not> i_aborted (invs s ! a) \<and> i_pc (invs s ! a) \<noteq> Returned)"

definition audible :: "tts \<Rightarrow> nat \<Rightarrow> nat \<Rightarrow> bool" where
  "audible s a i = (has_audio s a i \<and> a_state (the_audio s a i) = Playing)"

subsection \<open>What holds in every state the events can lead to\<close>

text \<open>
  The chunk index from which the fetches of an invocation can still be in flight: the
  one it awaits or reads, the next one while a chunk plays, the last one issued once it
  has returned.
\<close>

definition low :: "invocation \<Rightarrow> nat" where
  "low v =
     (case i_pc v of
        AwaitResp i \<Rightarrow> i | AwaitErrBody i \<Rightarrow> i | AwaitBlob i \<Rightarrow> i
      | AwaitPlayback i \<Rightarrow> i + 1
      | Returned \<Rightarrow> length (i_fetches v) - 1)"

text \<open>
  How many fetches were issued and how many chunks were decoded, by the place the
  invocation is at.
\<close>

definition counts :: "invocation \<Rightarrow> bool" where
  "counts v =
     (let n = length (i_chunks v); fs = i_fetches v; aus = i_audios v in
      fs \<noteq> [] \<and> length fs \<le> n \<and> length aus \<le> length fs
      \<and> (length aus < length fs \<or> length aus = n)
      \<and> length fs \<le> low v + 2
      \<and> (case i_pc v of
            AwaitResp i \<Rightarrow> i < n \<and> length fs = i + 1 \<and> length aus = i
          | AwaitErrBody i \<Rightarrow> i < n \<and> length fs = i + 1 \<and> length aus = i
          | AwaitBlob i \<Rightarrow> i < n \<and> length fs = min (i + 2) n \<and> length aus = i
          | AwaitPlayback i \<Rightarrow> i < n \<and> length fs = min (i + 2) n \<and> length aus = i + 1
          | Returned \<Rightarrow> True))"

text \<open>Only fetches from \<open>low\<close> on are in flight.\<close>

definition flights :: "invocation \<Rightarrow> bool" where
  "flights v = (\<forall>j < length (i_fetches v). in_flight (i_fetches v ! j) \<longrightarrow> low v \<le> j)"

text \<open>A cancelled invocation has no pending fetch.\<close>

definition cancelled :: "invocation \<Rightarrow> bool" where
  "cancelled v = (i_aborted v \<longrightarrow> Pending \<notin> set (i_fetches v))"

definition shape :: "invocation \<Rightarrow> bool" where
  "shape v = (counts v \<and> flights v \<and> cancelled v)"

definition sounding :: "audio \<Rightarrow> bool" where
  "sounding au = (a_state au = Loading \<or> a_state au = Playing)"

text \<open>
  An audio element that is loading or playing belongs to an invocation that is not
  cancelled and waits for it, and is \<open>currentAudio\<close>; its URL is revoked exactly when
  \<open>resolve()\<close> was called, and that is so as soon as it neither loads nor plays.
\<close>

definition audio_ok :: "(nat \<times> nat) option \<Rightarrow> nat \<Rightarrow> invocation \<Rightarrow> nat \<Rightarrow> bool" where
  "audio_ok cur a v i =
     (let au = i_audios v ! i in
      (sounding au \<longrightarrow>
         \<not> i_aborted v \<and> i_pc v = AwaitPlayback i \<and> cur = Some (a, i) \<and> \<not> a_resolved au)
      \<and> (a_resolved au \<longleftrightarrow> 0 < a_revoked au)
      \<and> (\<not> sounding au \<longrightarrow> a_resolved au))"

definition good_inv :: "nat option \<Rightarrow> (nat \<times> nat) option \<Rightarrow> nat \<Rightarrow> invocation \<Rightarrow> bool" where
  "good_inv ab cur a v =
     (shape v
      \<and> (\<not> i_aborted v \<and> i_pc v \<noteq> Returned \<longrightarrow> ab = Some a)
      \<and> (\<forall>i < length (i_audios v). audio_ok cur a v i))"

definition tts_inv :: "tts \<Rightarrow> bool" where
  "tts_inv s = (\<forall>a < length (invs s). good_inv (ttsAbort s) (currentAudio s) a (invs s ! a))"

definition inactive :: "invocation \<Rightarrow> bool" where
  "inactive v = (i_aborted v \<or> i_pc v = Returned)"

definition quiet :: "invocation \<Rightarrow> bool" where
  "quiet v = (\<forall>i < length (i_audios v). \<not> sounding (i_audios v ! i))"

text \<open>
  How an invocation can differ from an earlier state of itself: fetches and audio
  elements are only added, its chunks stay, the count of revocations of each URL does
  not go down, and once it has returned it issues no fetch and creates no audio.
\<close>

definition extends :: "invocation \<Rightarrow> invocation \<Rightarrow> bool" where
  "extends v v' =
     (length (i_audios v) \<le> length (i_audios v')
      \<and> length (i_fetches v) \<le> length (i_fetches v')
      \<and> i_chunks v' = i_chunks v
      \<and> (\<forall>i < length (i_audios v). a_revoked (i_audios v ! i) \<le> a_revoked (i_audios v' ! i))
      \<and> (i_pc v = Returned \<longrightarrow>
            i_pc v' = Returned \<and> length (i_fetches v') = length (i_fetches v)
            \<and> length (i_audios v') = length (i_audios v)))"

text \<open>The state after the abort part of \<open>stopTTS\<close>.\<close>

definition aborted_part :: "tts \<Rightarrow> tts" where
  "aborted_part s = (case ttsAbort s of Some a \<Rightarrow> (abort a s)\<lparr>ttsAbort := None\<rparr> | None \<Rightarrow> s)"

text \<open>
  Concrete runs for the examples: a message of three sentences is narrated; its first
  response arrives, or fails; its first chunk is playing; and a message of one sentence
  is narrated to its end.
\<close>

definition three :: jsstring where
  "three = str ''Hi! Yo? Ok''"

definition evs_response :: "event list" where
  "evs_response = [Narrate three, FetchSettles 0 0 RespOk]"

definition evs_network_failure :: "event list" where
  "evs_network_failure = [Narrate three, FetchSettles 0 0 NetFail]"

definition evs_bad_status :: "event list" where
  "evs_bad_status = [Narrate three, FetchSettles 0 0 RespBad]"

definition evs_playing :: "event list" where
  "evs_playing = [Narrate three, FetchSettles 0 0 RespOk, Resume 0, BodyDone 0 BodyOk,
                  PlayStarted 0 0]"

definition evs_finished :: "event list" where
  "evs_finished = [Narrate (str ''Hi''), FetchSettles 0 0 RespOk, Resume 0, BodyDone 0 BodyOk,
                   PlayStarted 0 0, AudioEnded 0 0, Resume 0]"

text \<open>
  Two turns on one page: a decoder for bytes below \<open>0x80\<close>, the bytes of a line with its
  LF, the page before the first message, the page after a first turn whose \<open>fetch\<close>
  failed, and the streams of a second turn, without and with a \<open>done\<close> event.
\<close>

definition ascii_step :: "unit decoder" where
  "ascii_step d b = (d, [ucast b])"

definition line_bytes :: "string \<Rightarrow> 8 word list" where
  "line_bytes s = map of_char s @ [0x0A]"

definition page0 :: turn where
  "page0 = \<lparr>isStreaming = False, currentMode = Str (str ''angel''),
     expression = Str (str ''smile''), doc = [], ui_log = [], delivered = [],
     streamBody = None, rawText = [], currentEvent = []\<rparr>"

definition page1 :: turn where
  "page1 = sendMessage ascii_step () parse_text page0 (str ''hi'') [] (Failed (str ''down''))"

definition no_done_stream :: "8 word list list" where
  "no_done_stream = [line_bytes ''event: token'', line_bytes ''data: Hi'']"

definition done_stream :: "8 word list list" where
  "done_stream = [line_bytes ''event: token'', line_bytes ''data: Hi'',
                  line_bytes ''event: done'', line_bytes ''data: x'']"

text \<open>The calls of \<open>playTTS\<close> in a log.\<close>

fun is_play :: "ui_call \<Rightarrow> bool" where
  "is_play (PlayTTS t k) = True"
| "is_play c = False"


section \<open>Properties of the sentence segmenter\<close>

lemma trim_Nil_iff: "trim s = [] \<longleftrightarrow> (\<forall>c\<in>set s. is_space c)"
proof -
  have "trim s = [] \<longleftrightarrow> (\<forall>c\<in>set (dropWhile is_space s). is_space c)"
    by (simp add: trim_def dropWhile_eq_Nil_conv)
  also have "\<dots> \<longleftrightarrow> dropWhile is_space s = []"
  proof
    assume a: "\<forall>c\<in>set (dropWhile is_space s). is_space c"
    show "dropWhile is_space s = []"
    proof (rule ccontr)
      assume n: "dropWhile is_space s \<noteq> []"
      then have "\<not> is_space (hd (dropWhile is_space s))" by (rule hd_dropWhile)
      moreover have "hd (dropWhile is_space s) \<in> set (dropWhile is_space s)" using n by simp
      ultimately show False using a by blast
    qed
  qed (auto dest: set_dropWhileD)
  also have "\<dots> \<longleftrightarrow> (\<forall>c\<in>set s. is_space c)"
    by (simp add: dropWhile_eq_Nil_conv)
  finally show ?thesis .
qed

lemma spec_pieces_not_Nil: "spec_pieces text \<noteq> []"
  by (induction "text") (auto split: list.splits)

lemma concat_spec_pieces: "concat (spec_pieces text) = text"
  by (induction "text") (auto split: list.splits)

lemma split_loop_pieces:
  "split_loop text chunks current =
     (chunks @ emitted (butlast (prepend current (spec_pieces text))),
      last (prepend current (spec_pieces text)))"
proof (induction "text" arbitrary: chunks current)
  case Nil
  show ?case by (simp add: prepend_def emitted_def)
next
  case (Cons c cs)
  obtain p ps where P: "spec_pieces cs = p # ps"
    using spec_pieces_not_Nil [of cs] by (cases "spec_pieces cs") auto
  show ?case
  proof (cases "is_terminator c")
    case True
    then show ?thesis
      using Cons [of _ "[]"] P by (simp add: prepend_def emitted_def Let_def)
  next
    case False
    then show ?thesis
      using Cons [of chunks "current @ [c]"] P by (simp add: prepend_def emitted_def Let_def)
  qed
qed

lemma splitBySentence_pieces:
  "splitBySentence text =
     (if emitted (spec_pieces text) = [] then [text] else emitted (spec_pieces text))"
proof -
  have e: "prepend [] (spec_pieces text) = spec_pieces text"
    using spec_pieces_not_Nil [of "text"] by (simp add: prepend_def)
  have "emitted (butlast (spec_pieces text) @ [last (spec_pieces text)]) =
        emitted (butlast (spec_pieces text)) @ emitted [last (spec_pieces text)]"
    unfolding emitted_def by (simp only: map_append filter_append)
  then have "emitted (spec_pieces text) =
        emitted (butlast (spec_pieces text)) @ emitted [last (spec_pieces text)]"
    using spec_pieces_not_Nil [of "text"] by simp
  then show ?thesis
    by (simp add: splitBySentence_def split_loop_pieces e emitted_def Let_def)
qed

lemma spec_pieces_closed:
  "p \<in> set (butlast (spec_pieces text)) \<Longrightarrow>
     p \<noteq> [] \<and> is_terminator (last p) \<and> (\<forall>c\<in>set (butlast p). \<not> is_terminator c)"
proof (induction "text" arbitrary: p)
  case Nil
  then show ?case by simp
next
  case (Cons c cs)
  obtain q qs where P: "spec_pieces cs = q # qs"
    using spec_pieces_not_Nil [of cs] by (cases "spec_pieces cs") auto
  show ?case
  proof (cases "is_terminator c")
    case True
    then show ?thesis using Cons P by (auto split: if_splits)
  next
    case False
    show ?thesis
    proof (cases qs)
      case Nil
      then show ?thesis using Cons.prems P False by simp
    next
      case (Cons r rs)
      then have q: "q \<in> set (butlast (spec_pieces cs))" using P by simp
      from Cons.prems False P Cons have "p = c # q \<or> p \<in> set (butlast (spec_pieces cs))"
        by auto
      then show ?thesis
      proof
        assume "p = c # q"
        then show ?thesis using Cons.IH [OF q] False by auto
      next
        assume "p \<in> set (butlast (spec_pieces cs))"
        then show ?thesis by (rule Cons.IH)
      qed
    qed
  qed
qed

lemma spec_pieces_last: "c \<in> set (last (spec_pieces text)) \<Longrightarrow> \<not> is_terminator c"
proof (induction "text")
  case Nil
  then show ?case by simp
next
  case (Cons d ds)
  obtain q qs where P: "spec_pieces ds = q # qs"
    using spec_pieces_not_Nil [of ds] by (cases "spec_pieces ds") auto
  show ?case using Cons P by (cases qs) (auto split: if_splits)
qed

lemma spec_pieces_no_terminator:
  "\<forall>c\<in>set text. \<not> is_terminator c \<Longrightarrow> spec_pieces text = [text]"
  by (induction "text") auto

lemma set_spec_pieces: "p \<in> set (spec_pieces text) \<Longrightarrow> set p \<subseteq> set text"
proof -
  assume "p \<in> set (spec_pieces text)"
  then have "set p \<subseteq> set (concat (spec_pieces text))" by auto
  then show ?thesis by (simp only: concat_spec_pieces)
qed

lemma emitted_blank:
  assumes "\<forall>c\<in>set text. is_space c"
  shows "emitted (spec_pieces text) = []"
proof -
  have "trim p = []" if "p \<in> set (spec_pieces text)" for p
    using set_spec_pieces [OF that] assms by (auto simp: trim_Nil_iff)
  then show ?thesis
    by (simp add: emitted_def filter_empty_conv)
qed

text \<open>
  Claim C8. A text without any terminator character that is not empty after trimming is
  returned as the single chunk \<open>trim text\<close>; an empty or whitespace-only text (a newline
  counts as whitespace) is returned unchanged as the single chunk \<open>text\<close>; the result is
  never the empty list.
\<close>

theorem splitBySentence_single_chunk:
  "((\<forall>c\<in>set text. \<not> is_terminator c) \<and> trim text \<noteq> [] \<longrightarrow>
      splitBySentence text = [trim text])
   \<and> ((\<forall>c\<in>set text. is_space c) \<longrightarrow> splitBySentence text = [text])
   \<and> splitBySentence text \<noteq> []"
proof (intro conjI impI)
  assume "(\<forall>c\<in>set text. \<not> is_terminator c) \<and> trim text \<noteq> []"
  then show "splitBySentence text = [trim text]"
    by (simp add: splitBySentence_pieces spec_pieces_no_terminator emitted_def)
next
  assume "\<forall>c\<in>set text. is_space c"
  then show "splitBySentence text = [text]"
    by (simp add: splitBySentence_pieces emitted_blank)
next
  show "splitBySentence text \<noteq> []"
    by (simp add: splitBySentence_pieces)
qed

text \<open>A text without terminator, a blank text holding a newline, and the empty text.\<close>

theorem splitBySentence_single_chunk_witness:
  "splitBySentence (str '' Version 2.0 '') = [str ''Version 2.0'']
   \<and> splitBySentence (str [CHR '' '', CHR 0x0A, CHR '' '']) = [str [CHR '' '', CHR 0x0A, CHR '' '']]
   \<and> splitBySentence [] = [[]]"
  using splitBySentence_single_chunk [of "str '' Version 2.0 ''"]
    splitBySentence_single_chunk [of "str [CHR '' '', CHR 0x0A, CHR '' '']"]
    splitBySentence_single_chunk [of "[]"]
  by (simp add: str_def is_terminator_def terminators_def trim_def is_space_def js_whitespace_def)

text \<open>
  Claim C7, as amended. \<open>splitBySentence\<close> cuts the text exactly after each terminator
  (U+3002, U+FF01, U+FF1F, \<open>!\<close>, \<open>?\<close>, LF): the raw pieces concatenate to the text, every
  piece but the last ends in a terminator and holds no other one, and the trailing piece
  holds none. Each piece is trimmed and emitted unless it is empty after trimming; so
  trailing content that is not blank is emitted, trimmed, as the final chunk. A period is
  not a terminator. The two examples of the specification evaluate as stated.
\<close>

theorem splitBySentence_chunks:
  "splitBySentence text =
     (if emitted (spec_pieces text) = [] then [text] else emitted (spec_pieces text))
   \<and> concat (spec_pieces text) = text
   \<and> (\<forall>p\<in>set (butlast (spec_pieces text)).
         p \<noteq> [] \<and> is_terminator (last p) \<and> (\<forall>c\<in>set (butlast p). \<not> is_terminator c))
   \<and> (\<forall>c\<in>set (last (spec_pieces text)). \<not> is_terminator c)
   \<and> (trim (last (spec_pieces text)) \<noteq> [] \<longrightarrow>
         last (splitBySentence text) = trim (last (spec_pieces text)))
   \<and> \<not> is_terminator (of_char CHR ''.'')
   \<and> splitBySentence (str ''Hello world. Version 2.0 is out'') =
         [str ''Hello world. Version 2.0 is out'']
   \<and> splitBySentence [0x5143, 0x6C17, 0x3067, 0x3059, 0x304B, 0xFF1F, 0x3046, 0x3093, 0xFF01] =
         [[0x5143, 0x6C17, 0x3067, 0x3059, 0x304B, 0xFF1F], [0x3046, 0x3093, 0xFF01]]"
proof (intro conjI)
  show "splitBySentence text =
     (if emitted (spec_pieces text) = [] then [text] else emitted (spec_pieces text))"
    by (rule splitBySentence_pieces)
  show "concat (spec_pieces text) = text"
    by (rule concat_spec_pieces)
  show "\<forall>p\<in>set (butlast (spec_pieces text)).
         p \<noteq> [] \<and> is_terminator (last p) \<and> (\<forall>c\<in>set (butlast p). \<not> is_terminator c)"
    using spec_pieces_closed by blast
  show "\<forall>c\<in>set (last (spec_pieces text)). \<not> is_terminator c"
    using spec_pieces_last by blast
  show "trim (last (spec_pieces text)) \<noteq> [] \<longrightarrow>
         last (splitBySentence text) = trim (last (spec_pieces text))"
  proof
    assume n: "trim (last (spec_pieces text)) \<noteq> []"
    have "emitted (butlast (spec_pieces text) @ [last (spec_pieces text)]) =
          emitted (butlast (spec_pieces text)) @ [trim (last (spec_pieces text))]"
      using n unfolding emitted_def by simp
    then have "emitted (spec_pieces text) =
          emitted (butlast (spec_pieces text)) @ [trim (last (spec_pieces text))]"
      using spec_pieces_not_Nil [of "text"] by simp
    then show "last (splitBySentence text) = trim (last (spec_pieces text))"
      by (simp add: splitBySentence_pieces)
  qed
  show "\<not> is_terminator (of_char CHR ''.'')"
    by (simp add: is_terminator_def terminators_def)
  show "splitBySentence (str ''Hello world. Version 2.0 is out'') =
         [str ''Hello world. Version 2.0 is out'']"
    by (simp add: splitBySentence_def str_def is_terminator_def terminators_def trim_def
        is_space_def js_whitespace_def)
  show "splitBySentence [0x5143, 0x6C17, 0x3067, 0x3059, 0x304B, 0xFF1F, 0x3046, 0x3093, 0xFF01] =
         [[0x5143, 0x6C17, 0x3067, 0x3059, 0x304B, 0xFF1F], [0x3046, 0x3093, 0xFF01]]"
    by (simp add: splitBySentence_def str_def is_terminator_def terminators_def trim_def
        is_space_def js_whitespace_def)
qed

text \<open>The pieces and chunks of \<open>Hi! ok \<close>, through the theorem.\<close>

theorem splitBySentence_chunks_witness:
  "str ''Hi!'' \<in> set (butlast (spec_pieces (str ''Hi! ok '')))
   \<and> is_terminator (last (str ''Hi!''))
   \<and> trim (last (spec_pieces (str ''Hi! ok ''))) \<noteq> []
   \<and> splitBySentence (str ''Hi! ok '') = [str ''Hi!'', str ''ok'']"
proof -
  have p: "spec_pieces (str ''Hi! ok '') = [str ''Hi!'', str '' ok '']"
    by (simp add: str_def is_terminator_def terminators_def)
  have t1: "trim (str ''Hi!'') = str ''Hi!''" and t2: "trim (str '' ok '') = str ''ok''"
    by (simp_all add: str_def trim_def is_space_def js_whitespace_def)
  have n: "str ''Hi!'' \<noteq> []" "str ''ok'' \<noteq> []"
    by (simp_all add: str_def)
  have m: "str ''Hi!'' \<in> set (butlast (spec_pieces (str ''Hi! ok '')))"
    by (simp add: p)
  have c: "splitBySentence (str ''Hi! ok '') =
      (if emitted (spec_pieces (str ''Hi! ok '')) = [] then [str ''Hi! ok '']
       else emitted (spec_pieces (str ''Hi! ok '')))"
    and b: "\<forall>p\<in>set (butlast (spec_pieces (str ''Hi! ok ''))).
         p \<noteq> [] \<and> is_terminator (last p) \<and> (\<forall>c\<in>set (butlast p). \<not> is_terminator c)"
    using splitBySentence_chunks [of "str ''Hi! ok ''"] by blast+
  have e: "emitted (spec_pieces (str ''Hi! ok '')) = [str ''Hi!'', str ''ok'']"
    by (simp add: p emitted_def t1 t2 n)
  from b m have "is_terminator (last (str ''Hi!''))" by blast
  moreover have "trim (last (spec_pieces (str ''Hi! ok ''))) \<noteq> []"
    by (simp add: p t2 n)
  moreover have "splitBySentence (str ''Hi! ok '') = [str ''Hi!'', str ''ok'']"
    using c by (simp add: e)
  ultimately show ?thesis using m by blast
qed

text \<open>
  Claim C7 as stated fails for blank trailing content: in \<open>a! \<close> the content after the
  last terminator is one space, and it is not emitted: the result is the single chunk
  \<open>a!\<close>.
\<close>

theorem splitBySentence_blank_tail_counterexample:
  "last (spec_pieces (str ''a! '')) = str '' ''
   \<and> splitBySentence (str ''a! '') = [str ''a!'']"
  by (simp add: splitBySentence_def str_def is_terminator_def terminators_def trim_def
        is_space_def js_whitespace_def)

section \<open>Properties of the event stream consumer\<close>

lemma js_split_not_Nil: "js_split s \<noteq> []"
  by (induction s) (auto split: list.splits)

lemma js_split_append:
  "js_split (a @ b) = butlast (js_split a) @ js_split (last (js_split a) @ b)"
proof (induction a)
  case Nil
  show ?case by simp
next
  case (Cons c cs)
  note IH = Cons.IH
  obtain l ls where L: "js_split cs = l # ls"
    using js_split_not_Nil [of cs] by (cases "js_split cs") auto
  obtain m ms where M: "js_split (last (js_split cs) @ b) = m # ms"
    using js_split_not_Nil [of "last (js_split cs) @ b"]
    by (cases "js_split (last (js_split cs) @ b)") auto
  show ?case
  proof (cases "c = 0x0A")
    case True
    then show ?thesis using IH L by simp
  next
    case False
    then show ?thesis using IH L M by (cases ls) auto
  qed
qed

lemma last_js_split_no_LF: "0x0A \<notin> set (last (js_split s))"
proof (induction s)
  case Nil
  show ?case by simp
next
  case (Cons c cs)
  obtain l ls where L: "js_split cs = l # ls"
    using js_split_not_Nil [of cs] by (cases "js_split cs") auto
  show ?case using Cons L by (cases ls) auto
qed

lemma js_split_no_LF: "0x0A \<notin> set s \<Longrightarrow> js_split s = [s]"
  by (induction s) auto

lemma decode_append:
  "decode dstep d (a @ b) =
     (let (d1, s) = decode dstep d a; (d2, t) = decode dstep d1 b in (d2, s @ t))"
  by (induction a arbitrary: d) (auto simp: Let_def split: prod.splits)

lemma read_loop_lines:
  "0x0A \<notin> set buffer \<Longrightarrow>
   read_loop dstep parse (d, buffer, st) vs =
     (let (d', s) = decode dstep d (concat vs); lines = js_split (buffer @ s)
      in (d', last lines, foldl (process_line parse) st (butlast lines)))"
proof (induction vs arbitrary: d buffer st)
  case Nil
  then show ?case by (simp add: js_split_no_LF)
next
  case (Cons v vs)
  obtain d1 s where D1: "decode dstep d v = (d1, s)" by (cases "decode dstep d v")
  obtain d2 t where D2: "decode dstep d1 (concat vs) = (d2, t)"
    by (cases "decode dstep d1 (concat vs)")
  let ?b = "last (js_split (buffer @ s))"
  have nl: "0x0A \<notin> set ?b" by (rule last_js_split_no_LF)
  have sp: "js_split (buffer @ s @ t) =
        butlast (js_split (buffer @ s)) @ js_split (?b @ t)"
    using js_split_append [of "buffer @ s" t] by simp
  have bl: "butlast (js_split (buffer @ s @ t)) =
        butlast (js_split (buffer @ s)) @ butlast (js_split (?b @ t))"
    unfolding sp by (simp add: butlast_append js_split_not_Nil)
  have la: "last (js_split (buffer @ s @ t)) = last (js_split (?b @ t))"
    unfolding sp by (simp add: js_split_not_Nil)
  show ?case
    using Cons.IH [OF nl, of d1 "foldl (process_line parse) st (butlast (js_split (buffer @ s)))"]
    by (simp add: D1 D2 decode_append pop_or_empty_def js_split_not_Nil bl la Let_def)
qed

text \<open>
  Claim C5. However the bytes of the stream are split into reads (in the middle of a
  line, in the middle of a character), the consumer processes the same lines in the same
  order as when the whole stream is decoded at once and cut at its line ends, so the
  same (event type, payload) pairs are delivered and every handler runs alike; what
  follows the last line end is kept in the buffer. In particular any fragmentation
  gives the result of one single read.
\<close>

theorem consumer_fragmentation:
  "read_loop dstep parse (d0, [], st) chunks = whole_lines dstep parse d0 st (concat chunks)
   \<and> read_loop dstep parse (d0, [], st) chunks = read_loop dstep parse (d0, [], st) [concat chunks]
   \<and> sendMessage dstep d0 parse st input chunks ending =
       sendMessage dstep d0 parse st input [concat chunks] ending"
proof -
  have a: "read_loop dstep parse (d0, [], st') vs = whole_lines dstep parse d0 st' (concat vs)"
    for st' vs
    using read_loop_lines [of "[]" dstep parse d0 st' vs] by (simp add: whole_lines_def)
  have b: "read_loop dstep parse (d0, [], st') vs = read_loop dstep parse (d0, [], st') [concat vs]"
    for st' vs
    using a [of st' vs] a [of st' "[concat vs]"] by simp
  show ?thesis
    using a [of st chunks] b [of st chunks]
    by (simp add: sendMessage_def Let_def b [of _ chunks])
qed

lemma process_line_other:
  "\<not> is_event_line line \<Longrightarrow> \<not> is_data_line line \<Longrightarrow> process_line parse st line = st"
  by (simp add: process_line_def)

lemma foldl_process_other:
  "\<forall>l\<in>set junk. \<not> is_event_line l \<and> \<not> is_data_line l \<Longrightarrow>
   foldl (process_line parse) st junk = st"
  by (induction junk) (simp_all add: process_line_other)

lemma currentEvent_process_line:
  "currentEvent (process_line parse st line) =
     (if is_event_line line then trim (drop 7 line)
      else if is_data_line line then str ''message'' else currentEvent st)"
  by (simp add: process_line_def Let_def)

text \<open>
  Claim C10. A line that starts neither with \<open>event: \<close> nor with \<open>data: \<close> changes
  nothing; so such lines between an event-type line and its data line do not matter.
  The current event type after a line is the trimmed rest of an event-type line, the
  sentinel \<open>message\<close> after a data line, and what it was after any other line.
\<close>

theorem other_lines_ignored:
  "(\<not> is_event_line line \<and> \<not> is_data_line line \<longrightarrow> process_line parse st line = st)
   \<and> ((\<forall>l\<in>set junk. \<not> is_event_line l \<and> \<not> is_data_line l) \<longrightarrow>
        foldl (process_line parse) st (ev # junk @ [dl]) =
        foldl (process_line parse) st [ev, dl])
   \<and> currentEvent (process_line parse st line) =
        (if is_event_line line then trim (drop 7 line)
         else if is_data_line line then str ''message'' else currentEvent st)"
  by (simp add: process_line_other foldl_process_other currentEvent_process_line)

text \<open>
  The empty line, a comment line and \<open>event:done\<close> without the space are such lines;
  with them between \<open>event: token\<close> and a data line the result is the same.
\<close>

theorem other_lines_ignored_witness:
  "\<not> is_event_line [] \<and> \<not> is_data_line []
   \<and> \<not> is_event_line (str '': ping'') \<and> \<not> is_data_line (str '': ping'')
   \<and> \<not> is_event_line (str ''event:done'') \<and> \<not> is_data_line (str ''event:done'')
   \<and> process_line parse_text turn0 (str ''event:done'') = turn0
   \<and> foldl (process_line parse_text) turn0
         [str ''event: token'', [], str '': ping'', str ''event:done'', str ''data: Hi'']
       = foldl (process_line parse_text) turn0 [str ''event: token'', str ''data: Hi'']
   \<and> currentEvent (process_line parse_text turn0 (str ''event: token'')) = str ''token''"
proof -
  have j: "\<forall>l\<in>set [[], str '': ping'', str ''event:done''].
             \<not> is_event_line l \<and> \<not> is_data_line l"
    by (simp add: is_event_line_def is_data_line_def js_startsWith_def str_def)
  have e: "is_event_line (str ''event: token'')"
    by (simp add: is_event_line_def is_data_line_def js_startsWith_def str_def)
  have t: "trim (drop 7 (str ''event: token'')) = str ''token''"
    by (simp add: str_def trim_def is_space_def js_whitespace_def)
  from j have n: "\<not> is_event_line (str ''event:done'') \<and> \<not> is_data_line (str ''event:done'')"
    by simp
  have 1: "process_line parse_text turn0 (str ''event:done'') = turn0"
    using other_lines_ignored [of "str ''event:done''" parse_text turn0] n by blast
  have 2: "foldl (process_line parse_text) turn0
         (str ''event: token'' # [[], str '': ping'', str ''event:done''] @ [str ''data: Hi''])
       = foldl (process_line parse_text) turn0 [str ''event: token'', str ''data: Hi'']"
    using other_lines_ignored [of _ parse_text turn0 "[[], str '': ping'', str ''event:done'']"] j
    by blast
  have 3: "currentEvent (process_line parse_text turn0 (str ''event: token'')) = str ''token''"
    using other_lines_ignored [of "str ''event: token''" parse_text turn0] e t by simp
  show ?thesis using j 1 2 3 by simp
qed

lemma js_startsWith_append: "js_startsWith (p @ s) p"
  by (simp add: js_startsWith_def)

lemma data_line: "is_data_line (str ''data: '' @ payload)"
  and not_event_line: "\<not> is_event_line (str ''data: '' @ payload)"
  and drop_data: "drop 6 (str ''data: '' @ payload) = payload"
  by (simp_all add: is_event_line_def is_data_line_def js_startsWith_def str_def)

lemma body_ok_ensure:
  "body_ok st \<Longrightarrow> \<exists>k. streamBody (ensure_body st) = Some k \<and> k < length (doc (ensure_body st))"
  by (auto simp: body_ok_def ensure_body_def createStreamingMessage_def split: option.splits)

text \<open>
  Claim C9. When the current event type is \<open>error\<close> and the data line carries a payload
  that parses to a value other than \<open>null\<close>, the body of the message in progress (created
  now if there is none yet) shows the error text and nothing else and loses the cursor,
  while \<open>rawText\<close>, the text accumulated so far, is unchanged.
\<close>

theorem error_event_keeps_text:
  assumes "currentEvent st = str ''error''" and "parse payload = Some data"
    and "\<not> read_throws data" and "body_ok st"
  shows "rawText (process_line parse st (str ''data: '' @ payload)) = rawText st
     \<and> (\<exists>k. streamBody (process_line parse st (str ''data: '' @ payload)) = Some k
          \<and> k < length (doc (process_line parse st (str ''data: '' @ payload)))
          \<and> el_html (doc (process_line parse st (str ''data: '' @ payload)) ! k) =
              ErrorText (to_string (get_prop data ''error''))
          \<and> \<not> el_cursor (doc (process_line parse st (str ''data: '' @ payload)) ! k))"
proof -
  let ?s = "st\<lparr>delivered := delivered st @ [(currentEvent st, data)]\<rparr>"
  have ev: "currentEvent ?s = str ''error''" using assms(1) by simp
  have d: "dispatch ?s data = on_error ?s data"
    using ev by (simp add: dispatch_def str_def)
  have pl: "process_line parse st (str ''data: '' @ payload) =
      (on_error ?s data)\<lparr>currentEvent := str ''message''\<rparr>"
    by (simp add: process_line_def data_line not_event_line drop_data assms(2) d del: drop_append)
  let ?e = "ensure_body (log_call ClearLLMRetryStatus ?s)"
  have "body_ok (log_call ClearLLMRetryStatus ?s)"
    using assms(4) by (simp add: body_ok_def log_call_def split: option.splits)
  then obtain k where k: "streamBody ?e = Some k" "k < length (doc ?e)"
    using body_ok_ensure by blast
  have r: "rawText ?e = rawText st"
    by (simp add: ensure_body_def createStreamingMessage_def log_call_def)
  show ?thesis
    unfolding pl using k r assms(3)
    by (simp add: on_error_def upd_body_def upd_el_def Let_def)
qed


text \<open>An error event after the token \<open>Hi\<close>.\<close>

theorem error_event_keeps_text_witness:
  "currentEvent typing0 = str ''error'' \<and> body_ok typing0
   \<and> rawText typing0 = str ''Hi''
   \<and> rawText (process_line parse_text typing0 (str ''data: '' @ str ''boom'')) = str ''Hi''
   \<and> (\<exists>k. streamBody (process_line parse_text typing0 (str ''data: '' @ str ''boom'')) = Some k
        \<and> el_html (doc (process_line parse_text typing0 (str ''data: '' @ str ''boom'')) ! k) =
            ErrorText (str ''boom''))"
proof -
  have h: "currentEvent typing0 = str ''error''" "body_ok typing0"
    "rawText typing0 = str ''Hi''"
    by (simp_all add: typing0_def turn0_def body_ok_def)
  have p: "parse_text (str ''boom'') =
      Some (Obj [(str ''token'', Str (str ''boom'')), (str ''error'', Str (str ''boom'')),
              (str ''mode'', Str (str ''angel'')), (str ''expression'', Str (str ''smile''))])"
    by (simp add: parse_text_def)
  have n: "\<not> read_throws
      (Obj [(str ''token'', Str (str ''boom'')), (str ''error'', Str (str ''boom'')),
              (str ''mode'', Str (str ''angel'')), (str ''expression'', Str (str ''smile''))])"
    by (simp add: read_throws_def)
  have g: "to_string (get_prop
      (Obj [(str ''token'', Str (str ''boom'')), (str ''error'', Str (str ''boom'')),
              (str ''mode'', Str (str ''angel'')), (str ''expression'', Str (str ''smile''))]) ''error'')
      = str ''boom''"
    by (simp add: get_prop_def str_def)
  show ?thesis
    using error_event_keeps_text [of typing0 parse_text "str ''boom''", OF h(1) p n h(2)] h
    unfolding g by auto
qed

section \<open>Finalization of a turn\<close>

lemma page1_state:
  "page1 = \<lparr>isStreaming = False, currentMode = Str (str ''angel''),
     expression = Str (str ''smile''),
     doc = [\<lparr>el_id = True, el_class = str ''msg msg-assistant angel'', el_tts = [],
              el_cursor = False, el_html = ConnectionError (str ''down'')\<rparr>],
     ui_log = [AddUserMessage (str ''hi''), ClearLLMRetryStatus, ClearLLMRetryStatus,
               ClearToolStatus, RefreshMemory],
     delivered = [], streamBody = Some 0, rawText = [], currentEvent = str ''message''\<rparr>"
  by code_simp

lemma no_done_state:
  "sendMessage ascii_step () parse_text page1 (str ''yo'') no_done_stream Closed =
   \<lparr>isStreaming = False, currentMode = Str (str ''angel''),
     expression = Str (str ''smile''),
     doc = [\<lparr>el_id = False, el_class = str ''msg msg-assistant angel'', el_tts = [str ''Hi''],
              el_cursor = False, el_html = ConnectionError (str ''down'')\<rparr>,
            \<lparr>el_id = True, el_class = str ''msg msg-assistant angel'', el_tts = [],
              el_cursor = False, el_html = Markdown (str ''Hi'')\<rparr>],
     ui_log = [AddUserMessage (str ''hi''), ClearLLMRetryStatus, ClearLLMRetryStatus,
               ClearToolStatus, RefreshMemory, AddUserMessage (str ''yo''), ClearLLMRetryStatus,
               PlayTTS (str ''Hi'') 0, ClearLLMRetryStatus, ClearToolStatus, RefreshMemory],
     delivered = [(str ''token'', Obj [(str ''token'', Str (str ''Hi'')),
                    (str ''error'', Str (str ''Hi'')), (str ''mode'', Str (str ''angel'')),
                    (str ''expression'', Str (str ''smile''))])],
     streamBody = Some 1, rawText = str ''Hi'', currentEvent = str ''message''\<rparr>"
  by code_simp

lemma done_state:
  "sendMessage ascii_step () parse_text page1 (str ''yo'') done_stream Closed =
   \<lparr>isStreaming = False, currentMode = Str (str ''angel''),
     expression = Str (str ''smile''),
     doc = [\<lparr>el_id = False, el_class = str ''msg msg-assistant angel'', el_tts = [str ''Hi''],
              el_cursor = False, el_html = ConnectionError (str ''down'')\<rparr>,
            \<lparr>el_id = False, el_class = str ''msg msg-assistant angel'', el_tts = [str ''Hi''],
              el_cursor = False, el_html = Markdown (str ''Hi'')\<rparr>],
     ui_log = [AddUserMessage (str ''hi''), ClearLLMRetryStatus, ClearLLMRetryStatus,
               ClearToolStatus, RefreshMemory, AddUserMessage (str ''yo''), ClearLLMRetryStatus,
               ClearLLMRetryStatus, PlayTTS (str ''Hi'') 0, PlayTTS (str ''Hi'') 1,
               ClearLLMRetryStatus, ClearToolStatus, RefreshMemory],
     delivered = [(str ''token'', Obj [(str ''token'', Str (str ''Hi'')),
                    (str ''error'', Str (str ''Hi'')), (str ''mode'', Str (str ''angel'')),
                    (str ''expression'', Str (str ''smile''))]),
                  (str ''done'', Obj [(str ''token'', Str (str ''x'')),
                    (str ''error'', Str (str ''x'')), (str ''mode'', Str (str ''angel'')),
                    (str ''expression'', Str (str ''smile''))])],
     streamBody = Some 1, rawText = str ''Hi'', currentEvent = str ''message''\<rparr>"
  by code_simp

text \<open>
  Claim C6 says that a turn that emits a token and closes without a \<open>done\<close> event is
  still finalized once, with the streaming id removed from its message, and that after a
  \<open>done\<close> event the fallback does nothing. On a page where an earlier turn failed before
  any text arrived this is not what the code does. That turn leaves its error message
  with the id \<open>streaming-msg\<close>, because the fallback skips an empty \<open>rawText\<close>. In the next
  turn \<open>getElementById\<close> finds this older element first: without a \<open>done\<close> event the
  fallback takes the id from the old message and puts the button there, while the new
  message keeps the id and gets no button; with a \<open>done\<close> event the handler finalizes
  the old message and the fallback then finalizes the new one and calls \<open>playTTS\<close> a
  second time.
\<close>

theorem stale_streaming_id:
  "doc page1 = [\<lparr>el_id = True, el_class = str ''msg msg-assistant angel'', el_tts = [],
                 el_cursor = False, el_html = ConnectionError (str ''down'')\<rparr>]
   \<and> doc (sendMessage ascii_step () parse_text page1 (str ''yo'') no_done_stream Closed) =
       [\<lparr>el_id = False, el_class = str ''msg msg-assistant angel'', el_tts = [str ''Hi''],
          el_cursor = False, el_html = ConnectionError (str ''down'')\<rparr>,
        \<lparr>el_id = True, el_class = str ''msg msg-assistant angel'', el_tts = [],
          el_cursor = False, el_html = Markdown (str ''Hi'')\<rparr>]
   \<and> filter is_play
         (ui_log (sendMessage ascii_step () parse_text page1 (str ''yo'') no_done_stream Closed)) =
       [PlayTTS (str ''Hi'') 0]
   \<and> doc (sendMessage ascii_step () parse_text page1 (str ''yo'') done_stream Closed) =
       [\<lparr>el_id = False, el_class = str ''msg msg-assistant angel'', el_tts = [str ''Hi''],
          el_cursor = False, el_html = ConnectionError (str ''down'')\<rparr>,
        \<lparr>el_id = False, el_class = str ''msg msg-assistant angel'', el_tts = [str ''Hi''],
          el_cursor = False, el_html = Markdown (str ''Hi'')\<rparr>]
   \<and> filter is_play
         (ui_log (sendMessage ascii_step () parse_text page1 (str ''yo'') done_stream Closed)) =
       [PlayTTS (str ''Hi'') 0, PlayTTS (str ''Hi'') 1]"
proof -
  have 1: "doc page1 = [\<lparr>el_id = True, el_class = str ''msg msg-assistant angel'', el_tts = [],
                 el_cursor = False, el_html = ConnectionError (str ''down'')\<rparr>]"
    by (simp add: page1_state)
  show ?thesis
    unfolding no_done_state done_state 1 by simp
qed

section \<open>Properties of the narration pipeline\<close>

lemma good_inv_quiet: "good_inv ab cur a v \<Longrightarrow> inactive v \<Longrightarrow> quiet v"
  by (auto simp: good_inv_def audio_ok_def inactive_def quiet_def Let_def)

lemma good_inv_not_current:
  "good_inv ab cur a v \<Longrightarrow> \<forall>i. cur \<noteq> Some (a, i) \<Longrightarrow> quiet v"
  by (auto simp: good_inv_def audio_ok_def quiet_def Let_def)

lemma good_inv_not_owner: "good_inv ab cur a v \<Longrightarrow> ab \<noteq> Some a \<Longrightarrow> inactive v"
  by (auto simp: good_inv_def inactive_def)

lemma good_inv_globals:
  "good_inv ab cur a v \<Longrightarrow> inactive v \<Longrightarrow> good_inv ab' cur' a v"
  by (auto simp: good_inv_def audio_ok_def inactive_def Let_def)

lemma good_inv_current:
  "good_inv ab cur a v \<Longrightarrow> quiet v \<Longrightarrow> good_inv ab cur' a v"
  by (auto simp: good_inv_def audio_ok_def quiet_def Let_def)

lemma tts_invD: "tts_inv s \<Longrightarrow> a < length (invs s) \<Longrightarrow>
    good_inv (ttsAbort s) (currentAudio s) a (invs s ! a)"
  by (simp add: tts_inv_def)

text \<open>Two invocations that are both not cancelled and not returned are the same one.\<close>

lemma active_unique:
  assumes "tts_inv s" "active s a" "active s a'"
  shows "a = a'"
proof -
  have "ttsAbort s = Some a"
    using tts_invD [OF assms(1), of a] assms(2) by (simp add: active_def good_inv_def)
  moreover have "ttsAbort s = Some a'"
    using tts_invD [OF assms(1), of a'] assms(3) by (simp add: active_def good_inv_def)
  ultimately show ?thesis by simp
qed

lemma sounding_unique:
  assumes "tts_inv s" "has_audio s a i" "sounding (the_audio s a i)"
    "has_audio s a' i'" "sounding (the_audio s a' i')"
  shows "a = a' \<and> i = i'"
proof -
  have "currentAudio s = Some (a, i)"
    using tts_invD [OF assms(1), of a] assms(2,3)
    by (simp add: has_audio_def the_audio_def good_inv_def audio_ok_def Let_def)
  moreover have "currentAudio s = Some (a', i')"
    using tts_invD [OF assms(1), of a'] assms(4,5)
    by (simp add: has_audio_def the_audio_def good_inv_def audio_ok_def Let_def)
  ultimately show ?thesis by simp
qed

lemma upd_inv_simps [simp]:
  "ttsAbort (upd_inv a f s) = ttsAbort s"
  "currentAudio (upd_inv a f s) = currentAudio s"
  "buttons (upd_inv a f s) = buttons s"
  "trace (upd_inv a f s) = trace s"
  "length (invs (upd_inv a f s)) = length (invs s)"
  by (simp_all add: upd_inv_def)

lemma invs_upd_inv:
  "b < length (invs s) \<Longrightarrow> invs (upd_inv a f s) ! b = (if b = a then f (invs s ! a) else invs s ! b)"
  by (simp add: upd_inv_def)

lemma act_simps [simp]:
  "ttsAbort (act x s) = ttsAbort s"
  "currentAudio (act x s) = currentAudio s"
  "buttons (act x s) = buttons s"
  "invs (act x s) = invs s"
  "trace (act x s) = trace s @ [x]"
  by (simp_all add: act_def)

lemma upd_btn_simps [simp]:
  "ttsAbort (upd_btn b f s) = ttsAbort s"
  "currentAudio (upd_btn b f s) = currentAudio s"
  "invs (upd_btn b f s) = invs s"
  "trace (upd_btn b f s) = trace s"
  "length (buttons (upd_btn b f s)) = length (buttons s)"
  by (simp_all add: upd_btn_def)

lemma tts_inv_cong:
  "invs s' = invs s \<Longrightarrow> ttsAbort s' = ttsAbort s \<Longrightarrow> currentAudio s' = currentAudio s \<Longrightarrow>
   tts_inv s' = tts_inv s"
  by (simp add: tts_inv_def)

lemma tts_inv_act [simp]: "tts_inv (act x s) = tts_inv s"
  by (rule tts_inv_cong) simp_all

lemma tts_inv_upd_btn [simp]: "tts_inv (upd_btn b f s) = tts_inv s"
  by (rule tts_inv_cong) simp_all

lemma tts_inv_buttons [simp]: "tts_inv (s\<lparr>buttons := bs\<rparr>) = tts_inv s"
  and tts_inv_trace [simp]: "tts_inv (s\<lparr>trace := tr\<rparr>) = tts_inv s"
  by (simp_all add: tts_inv_def)

text \<open>An update of one invocation keeps the invariant if that invocation stays good.\<close>

lemma tts_inv_upd_inv:
  assumes "tts_inv s"
    and "a < length (invs s) \<Longrightarrow> good_inv (ttsAbort s) (currentAudio s) a (f (invs s ! a))"
  shows "tts_inv (upd_inv a f s)"
  unfolding tts_inv_def
proof (intro allI impI)
  fix b assume "b < length (invs (upd_inv a f s))"
  then have b: "b < length (invs s)" by simp
  show "good_inv (ttsAbort (upd_inv a f s)) (currentAudio (upd_inv a f s)) b
          (invs (upd_inv a f s) ! b)"
    using assms(2) tts_invD [OF assms(1) b] b by (simp add: invs_upd_inv)
qed

lemma tts_inv_local_step:
  assumes "tts_inv s" and "invs s' = (invs s)[a := v']" and "ttsAbort s' = ttsAbort s"
    and "currentAudio s' = currentAudio s"
    and "a < length (invs s) \<Longrightarrow> good_inv (ttsAbort s) (currentAudio s) a v'"
  shows "tts_inv s'"
  unfolding tts_inv_def
proof (intro allI impI)
  fix b assume "b < length (invs s')"
  then have b: "b < length (invs s)" by (simp add: assms(2))
  show "good_inv (ttsAbort s') (currentAudio s') b (invs s' ! b)"
    using assms(5) tts_invD [OF assms(1) b] b
    by (cases "b = a") (simp_all add: assms(2-4))
qed

lemma tts_inv_active_step:
  assumes "tts_inv s" and "a < length (invs s)" and "\<not> inactive (invs s ! a)"
    and "invs s' = (invs s)[a := v']" and "ttsAbort s' = ttsAbort s"
    and "good_inv (ttsAbort s) (currentAudio s') a v'"
  shows "tts_inv s'"
  unfolding tts_inv_def
proof (intro allI impI)
  fix b assume "b < length (invs s')"
  then have b: "b < length (invs s)" by (simp add: assms(4))
  have own: "ttsAbort s = Some a"
    using tts_invD [OF assms(1,2)] assms(3) by (simp add: good_inv_def inactive_def)
  show "good_inv (ttsAbort s') (currentAudio s') b (invs s' ! b)"
  proof (cases "b = a")
    case True
    then show ?thesis using assms(2,6) by (simp add: assms(4,5))
  next
    case False
    have g: "good_inv (ttsAbort s) (currentAudio s) b (invs s ! b)"
      by (rule tts_invD [OF assms(1) b])
    have "inactive (invs s ! b)"
      using good_inv_not_owner [OF g] own False by simp
    then show ?thesis
      using good_inv_globals [OF g] False b by (simp add: assms(4,5))
  qed
qed

lemma in_flight_abort_fetch: "in_flight (abort_fetch f) \<Longrightarrow> in_flight f"
  by (cases f) (auto simp: abort_fetch_def)

lemma in_flight_settle: "in_flight (settle out f) \<Longrightarrow> in_flight f"
  by (cases f) (auto simp: settle_def)

lemma not_sounding_release_pause [simp]: "\<not> sounding (release (pause au))"
  by (simp add: sounding_def release_def pause_def)

lemma low_cong:
  "i_pc v' = i_pc v \<Longrightarrow> length (i_fetches v') = length (i_fetches v) \<Longrightarrow> low v' = low v"
  by (simp add: low_def split: pc.splits)

lemma abort_good:
  assumes "good_inv ab cur a v"
  shows "good_inv ab cur a (v\<lparr>i_aborted := True, i_fetches := map abort_fetch (i_fetches v),
           i_audios := map (\<lambda>au. release (pause au)) (i_audios v)\<rparr>)"
proof -
  let ?v = "v\<lparr>i_aborted := True, i_fetches := map abort_fetch (i_fetches v),
           i_audios := map (\<lambda>au. release (pause au)) (i_audios v)\<rparr>"
  have l: "low ?v = low v" by (rule low_cong) simp_all
  have "shape v" using assms by (simp add: good_inv_def)
  then have "shape ?v"
    unfolding shape_def counts_def flights_def cancelled_def Let_def l
    by (auto dest: in_flight_abort_fetch simp: abort_fetch_def split: pc.splits)
  moreover have "audio_ok cur a ?v i" if "i < length (i_audios v)" for i
    using that by (simp add: audio_ok_def Let_def) (simp add: release_def)
  ultimately show ?thesis by (simp add: good_inv_def)
qed

lemma tts_inv_abort: "tts_inv s \<Longrightarrow> tts_inv (abort a s)"
  unfolding abort_def
  by (auto intro!: tts_inv_upd_inv abort_good dest: tts_invD)

lemma abort_simps [simp]:
  "ttsAbort (abort a s) = ttsAbort s"
  "currentAudio (abort a s) = currentAudio s"
  "buttons (abort a s) = buttons s"
  "length (invs (abort a s)) = length (invs s)"
  by (simp_all add: abort_def)

lemma abort_aborted:
  "a < length (invs s) \<Longrightarrow> i_aborted (invs (abort a s) ! a)"
  by (simp add: abort_def invs_upd_inv)

lemma abort_other:
  "b \<noteq> a \<Longrightarrow> invs (abort a s) ! b = invs s ! b"
  by (simp add: abort_def upd_inv_def)

lemma pause_quiet:
  "quiet v \<Longrightarrow> (i_audios v)[i := pause (i_audios v ! i)] = i_audios v"
proof (cases "i < length (i_audios v)")
  case True
  assume "quiet v"
  then have "pause (i_audios v ! i) = i_audios v ! i"
    using True by (simp add: quiet_def pause_def sounding_def)
  then show ?thesis by simp
next
  case False
  then show ?thesis by (simp add: list_update_beyond)
qed

lemma aborted_part_simps [simp]:
  "ttsAbort (aborted_part s) = None"
  "currentAudio (aborted_part s) = currentAudio s"
  "buttons (aborted_part s) = buttons s"
  "length (invs (aborted_part s)) = length (invs s)"
  by (simp_all add: aborted_part_def split: option.splits)

lemma aborted_part_inactive:
  assumes "tts_inv s" and "b < length (invs s)"
  shows "inactive (invs (aborted_part s) ! b)"
proof (cases "ttsAbort s")
  case None
  then show ?thesis
    using good_inv_not_owner [OF tts_invD [OF assms]] by (simp add: aborted_part_def)
next
  case (Some a)
  show ?thesis
  proof (cases "b = a")
    case True
    then show ?thesis using Some assms(2) abort_aborted [of a s]
      by (simp add: aborted_part_def inactive_def)
  next
    case False
    then show ?thesis
      using Some good_inv_not_owner [OF tts_invD [OF assms]]
      by (simp add: aborted_part_def abort_other)
  qed
qed

lemma aborted_part_inv:
  assumes "tts_inv s"
  shows "tts_inv (aborted_part s)"
proof -
  have i: "tts_inv (case ttsAbort s of Some a \<Rightarrow> abort a s | None \<Rightarrow> s)"
    using assms by (simp add: tts_inv_abort split: option.splits)
  have e: "invs (aborted_part s) = invs (case ttsAbort s of Some a \<Rightarrow> abort a s | None \<Rightarrow> s)"
    "currentAudio (case ttsAbort s of Some a \<Rightarrow> abort a s | None \<Rightarrow> s) = currentAudio s"
    "ttsAbort (case ttsAbort s of Some a \<Rightarrow> abort a s | None \<Rightarrow> s) = ttsAbort s"
    by (simp_all add: aborted_part_def split: option.splits)
  show ?thesis
    unfolding tts_inv_def
  proof (intro allI impI)
    fix b assume "b < length (invs (aborted_part s))"
    then have b: "b < length (invs s)" by simp
    then have b': "b < length (invs (case ttsAbort s of Some a \<Rightarrow> abort a s | None \<Rightarrow> s))"
      by (simp split: option.splits)
    have "good_inv (ttsAbort s) (currentAudio s) b (invs (aborted_part s) ! b)"
      using tts_invD [OF i b'] by (simp add: e)
    then show "good_inv (ttsAbort (aborted_part s)) (currentAudio (aborted_part s)) b
        (invs (aborted_part s) ! b)"
      using good_inv_globals aborted_part_inactive [OF assms b] by simp
  qed
qed

lemma stopTTS_eq:
  assumes "tts_inv s"
  shows "stopTTS s =
     (aborted_part s)\<lparr>currentAudio := None,
        buttons := map (\<lambda>b. if busy b then reset_btn (ttsText b) b else b) (buttons s),
        trace := trace (aborted_part s)
          @ (case currentAudio s of Some (a, i) \<Rightarrow> [ActPause a i] | None \<Rightarrow> [])
          @ map ActReset (filter (\<lambda>k. busy (buttons s ! k)) [0..<length (buttons s)])\<rparr>"
proof -
  let ?s1 = "aborted_part s"
  have q: "quiet (invs ?s1 ! a)" if "a < length (invs s)" for a
    using good_inv_quiet [OF tts_invD [OF aborted_part_inv [OF assms]]]
      aborted_part_inactive [OF assms that] that by simp
  have u: "upd_audio a i pause ?s1 = ?s1" for a i
  proof (cases "a < length (invs s)")
    case True
    then show ?thesis
      using pause_quiet [OF q [OF True], of i] by (simp add: upd_audio_def upd_inv_def)
  next
    case False
    then show ?thesis by (simp add: upd_audio_def upd_inv_def list_update_beyond)
  qed
  show ?thesis
    unfolding stopTTS_def aborted_part_def [symmetric] Let_def
    by (cases "currentAudio s") (auto simp: u act_def)
qed

lemma stopTTS_inv:
  assumes "tts_inv s"
  shows "tts_inv (stopTTS s)"
proof -
  have "tts_inv ((aborted_part s)\<lparr>currentAudio := None\<rparr>)"
    unfolding tts_inv_def
  proof (intro allI impI)
    fix b assume "b < length (invs ((aborted_part s)\<lparr>currentAudio := None\<rparr>))"
    then have b: "b < length (invs s)" by simp
    then have b': "b < length (invs (aborted_part s))" by simp
    show "good_inv (ttsAbort ((aborted_part s)\<lparr>currentAudio := None\<rparr>))
        (currentAudio ((aborted_part s)\<lparr>currentAudio := None\<rparr>)) b
        (invs ((aborted_part s)\<lparr>currentAudio := None\<rparr>) ! b)"
      using good_inv_globals [OF tts_invD [OF aborted_part_inv [OF assms] b']
          aborted_part_inactive [OF assms b]]
      by simp
  qed
  then show ?thesis
    by (simp add: stopTTS_eq [OF assms] tts_inv_def)
qed

lemma stopTTS_simps:
  assumes "tts_inv s"
  shows "ttsAbort (stopTTS s) = None" and "currentAudio (stopTTS s) = None"
    and "invs (stopTTS s) = invs (aborted_part s)"
    and "buttons (stopTTS s) = map (\<lambda>b. if busy b then reset_btn (ttsText b) b else b) (buttons s)"
  by (simp_all add: stopTTS_eq [OF assms])

lemma stopTTS_inactive:
  assumes "tts_inv s" and "b < length (invs s)"
  shows "inactive (invs (stopTTS s) ! b)"
  using aborted_part_inactive [OF assms] by (simp add: stopTTS_simps [OF assms(1)])

lemma splitBySentence_not_Nil: "splitBySentence t \<noteq> []"
  by (simp add: splitBySentence_def Let_def split: prod.splits)

lemma playTTS_inv:
  assumes "tts_inv s"
  shows "tts_inv (playTTS t b s)"
proof -
  let ?m = "stopTTS s"
  let ?a = "length (invs ?m)"
  let ?v = "\<lparr>i_text = t, i_btn = b, i_chunks = splitBySentence t, i_aborted = False,
             i_pc = AwaitResp 0, i_fetches = [Pending], i_audios = [], i_reported = False\<rparr>"
  have len: "length (invs ?m) = length (invs s)"
    by (simp add: stopTTS_simps [OF assms])
  have iv: "invs (playTTS t b s) = invs ?m @ [?v]"
    and ab: "ttsAbort (playTTS t b s) = Some ?a"
    and cu: "currentAudio (playTTS t b s) = None"
    by (simp_all add: playTTS_def Let_def issue_fetch_def upd_inv_def upd_btn_def
        stopTTS_simps [OF assms])
  have new: "good_inv (Some ?a) None ?a ?v"
    using splitBySentence_not_Nil [of t]
    by (simp add: good_inv_def shape_def counts_def flights_def cancelled_def low_def Let_def
        Suc_le_eq)
  show ?thesis
    unfolding tts_inv_def
  proof (intro allI impI)
    fix c assume "c < length (invs (playTTS t b s))"
    then have c: "c < length (invs s) \<or> c = ?a" by (auto simp: iv len)
    then show "good_inv (ttsAbort (playTTS t b s)) (currentAudio (playTTS t b s)) c
        (invs (playTTS t b s) ! c)"
    proof
      assume c: "c < length (invs s)"
      then have c': "c < length (invs ?m)" by (simp add: len)
      show ?thesis
        using good_inv_globals [OF tts_invD [OF stopTTS_inv [OF assms] c']
            stopTTS_inactive [OF assms c]] c'
        by (simp add: iv ab cu nth_append)
    next
      assume "c = ?a"
      then show ?thesis using new by (simp add: iv ab cu)
    qed
  qed
qed

lemma resetTTSBtn_simps [simp]:
  "ttsAbort (resetTTSBtn b t s) = ttsAbort s"
  "currentAudio (resetTTSBtn b t s) = currentAudio s"
  "invs (resetTTSBtn b t s) = invs s"
  "trace (resetTTSBtn b t s) = trace s"
  by (simp_all add: resetTTSBtn_def)

lemma catch_block_simps [simp]:
  "ttsAbort (catch_block a e s) = ttsAbort s"
  "currentAudio (catch_block a e s) = currentAudio s"
  "invs (catch_block a e s) =
     (invs s)[a := (invs s ! a)\<lparr>i_pc := Returned,
        i_reported := (i_reported (invs s ! a) \<or> e \<noteq> AbortError)\<rparr>]"
  by (simp_all add: catch_block_def Let_def upd_inv_def)

lemma issue_fetch_simps [simp]:
  "ttsAbort (issue_fetch a j s) = ttsAbort s"
  "currentAudio (issue_fetch a j s) = currentAudio s"
  "buttons (issue_fetch a j s) = buttons s"
  "invs (issue_fetch a j s) =
     (invs s)[a := (invs s ! a)\<lparr>i_fetches := i_fetches (invs s ! a) @
        [if i_aborted (invs s ! a) then Rejected AbortError else Pending]\<rparr>]"
  by (simp_all add: issue_fetch_def upd_inv_def)

lemma flightsD:
  "flights v \<Longrightarrow> j < length (i_fetches v) \<Longrightarrow> in_flight (i_fetches v ! j) \<Longrightarrow> low v \<le> j"
  by (simp add: flights_def)

lemma good_invD:
  assumes "good_inv ab cur a v"
  shows "counts v" and "flights v" and "\<not> i_aborted v \<and> i_pc v \<noteq> Returned \<longrightarrow> ab = Some a"
    and "\<And>k. k < length (i_audios v) \<Longrightarrow> audio_ok cur a v k" and "cancelled v"
  using assms by (simp_all add: good_inv_def shape_def)

lemma good_invI:
  assumes "counts v" and "flights v" and "\<not> i_aborted v \<and> i_pc v \<noteq> Returned \<longrightarrow> ab = Some a"
    and "\<And>k. k < length (i_audios v) \<Longrightarrow> audio_ok cur a v k" and "cancelled v"
  shows "good_inv ab cur a v"
  using assms by (simp add: good_inv_def shape_def)

text \<open>While the invocation is not waiting for a chunk to end, none of its audio sounds.\<close>

lemma no_sounding:
  assumes "good_inv ab cur a v" and "k < length (i_audios v)"
    and "i_pc v \<noteq> AwaitPlayback k \<or> a_resolved (i_audios v ! k)"
  shows "\<not> sounding (i_audios v ! k)"
  using good_invD(4) [OF assms(1,2)] assms(3) by (auto simp: audio_ok_def Let_def)

lemma audio_ok_silent:
  assumes "audio_ok cur a v k" and "\<not> sounding (i_audios v ! k)"
    and "i_audios v' = i_audios v"
  shows "audio_ok cur' a v' k"
  using assms by (auto simp: audio_ok_def Let_def)

text \<open>Leaving through the \<open>catch\<close> block, from a place where no chunk is playing.\<close>

lemma catch_good:
  assumes "good_inv ab cur a v"
    and "i_pc v = AwaitResp i \<or> i_pc v = AwaitErrBody i
         \<or> (i_pc v = AwaitBlob i \<and> (i < length (i_fetches v) \<longrightarrow> \<not> in_flight (i_fetches v ! i)))"
  shows "good_inv ab cur a (v\<lparr>i_pc := Returned, i_reported := r\<rparr>)"
proof (rule good_invI)
  let ?v = "v\<lparr>i_pc := Returned, i_reported := r\<rparr>"
  note g = good_invD [OF assms(1)]
  show "counts ?v"
    using g(1) unfolding counts_def Let_def low_def by auto
  show "flights ?v"
    unfolding flights_def
  proof (intro allI impI)
    fix j assume j: "j < length (i_fetches ?v)" and f: "in_flight (i_fetches ?v ! j)"
    then have lo: "low v \<le> j" using flightsD [OF g(2), of j] by simp
    from assms(2) show "low ?v \<le> j"
    proof (elim disjE conjE)
      assume "i_pc v = AwaitResp i"
      then show ?thesis using g(1) lo by (simp add: counts_def low_def Let_def)
    next
      assume "i_pc v = AwaitErrBody i"
      then show ?thesis using g(1) lo by (simp add: counts_def low_def Let_def)
    next
      assume p: "i_pc v = AwaitBlob i"
        and n: "i < length (i_fetches v) \<longrightarrow> \<not> in_flight (i_fetches v ! i)"
      have "i \<le> j" using lo p by (simp add: low_def)
      moreover have "j \<noteq> i" using n j f by auto
      moreover have "length (i_fetches v) \<le> i + 2"
        using g(1) p by (simp add: counts_def Let_def)
      ultimately show ?thesis by (simp add: low_def)
    qed
  qed
  show "\<not> i_aborted ?v \<and> i_pc ?v \<noteq> Returned \<longrightarrow> ab = Some a" by simp
  show "cancelled ?v" using g(5) by (simp add: cancelled_def)
  show "audio_ok cur a ?v k" if "k < length (i_audios ?v)" for k
  proof -
    have k: "k < length (i_audios v)" using that by simp
    have "\<not> sounding (i_audios v ! k)"
      using no_sounding [OF assms(1) k] assms(2) by auto
    then show ?thesis
      using audio_ok_silent [OF g(4) [OF k]] by simp
  qed
qed

lemma catch_block_inv:
  assumes "tts_inv s" and "a < length (invs s)"
    and "i_pc (invs s ! a) = AwaitResp i \<or> i_pc (invs s ! a) = AwaitErrBody i
         \<or> (i_pc (invs s ! a) = AwaitBlob i \<and>
             (i < length (i_fetches (invs s ! a)) \<longrightarrow> \<not> in_flight (i_fetches (invs s ! a) ! i)))"
  shows "tts_inv (catch_block a e s)"
proof (rule tts_inv_local_step [OF assms(1), where a = a])
  show "invs (catch_block a e s) =
     (invs s)[a := (invs s ! a)\<lparr>i_pc := Returned,
        i_reported := (i_reported (invs s ! a) \<or> e \<noteq> AbortError)\<rparr>]" by simp
  show "good_inv (ttsAbort s) (currentAudio s) a ((invs s ! a)\<lparr>i_pc := Returned,
        i_reported := (i_reported (invs s ! a) \<or> e \<noteq> AbortError)\<rparr>)"
    by (rule catch_good [OF tts_invD [OF assms(1,2)] assms(3)])
qed simp_all

lemma fetch_update_good:
  assumes "good_inv ab cur a v" and "in_flight x \<longrightarrow> in_flight (i_fetches v ! j)"
    and "x \<noteq> Pending"
  shows "good_inv ab cur a (v\<lparr>i_fetches := (i_fetches v)[j := x]\<rparr>)"
proof (rule good_invI)
  let ?v = "v\<lparr>i_fetches := (i_fetches v)[j := x]\<rparr>"
  note g = good_invD [OF assms(1)]
  have l: "low ?v = low v" by (rule low_cong) simp_all
  show "counts ?v"
    using g(1) unfolding counts_def Let_def l by (simp split: pc.splits)
  show "flights ?v"
    unfolding flights_def l
  proof (intro allI impI)
    fix k assume k: "k < length (i_fetches ?v)" and f: "in_flight (i_fetches ?v ! k)"
    have "in_flight (i_fetches v ! k)"
      using k f assms(2) by (cases "k = j") simp_all
    then show "low v \<le> k" using flightsD [OF g(2), of k] k by simp
  qed
  show "\<not> i_aborted ?v \<and> i_pc ?v \<noteq> Returned \<longrightarrow> ab = Some a" using g(3) by simp
  show "cancelled ?v"
    using g(5) assms(3) set_update_subset_insert [of "i_fetches v" j x]
    by (auto simp: cancelled_def)
  show "audio_ok cur a ?v k" if "k < length (i_audios ?v)" for k
    using g(4) [of k] that by (auto simp: audio_ok_def Let_def)
qed

lemma settle_not_Pending: "settle out f \<noteq> Pending"
  by (cases out) (auto simp: settle_def)

lemma settle_inv: "tts_inv s \<Longrightarrow> tts_inv (step s (FetchSettles a j out))"
  by (auto intro!: tts_inv_upd_inv fetch_update_good settle_not_Pending
      dest: tts_invD in_flight_settle)

text \<open>Returning: no audio sounds and only the last fetch may be in flight.\<close>

lemma return_good:
  assumes "good_inv ab cur a v"
    and "\<And>k. k < length (i_audios v) \<Longrightarrow> \<not> sounding (i_audios v ! k)"
    and "\<And>j. j < length (i_fetches v) \<Longrightarrow> in_flight (i_fetches v ! j) \<Longrightarrow>
           length (i_fetches v) - 1 \<le> j"
  shows "good_inv ab' cur' a (v\<lparr>i_pc := Returned\<rparr>)"
proof (rule good_invI)
  let ?v = "v\<lparr>i_pc := Returned\<rparr>"
  note g = good_invD [OF assms(1)]
  show "counts ?v"
    using g(1) unfolding counts_def Let_def low_def by auto
  show "flights ?v"
    using assms(3) by (simp add: flights_def low_def)
  show "\<not> i_aborted ?v \<and> i_pc ?v \<noteq> Returned \<longrightarrow> ab' = Some a" by simp
  show "cancelled ?v" using g(5) by (simp add: cancelled_def)
  show "audio_ok cur' a ?v k" if "k < length (i_audios ?v)" for k
    using audio_ok_silent [OF g(4) [of k] assms(2) [of k]] that by simp
qed

lemma playback_flights:
  assumes "good_inv ab cur a v" and "i_pc v = AwaitPlayback i"
    and "j < length (i_fetches v)" and "in_flight (i_fetches v ! j)"
  shows "length (i_fetches v) - 1 \<le> j"
proof -
  note g = good_invD [OF assms(1)]
  have "i + 1 \<le> j" using flightsD [OF g(2) assms(3,4)] assms(2) by (simp add: low_def)
  moreover have "length (i_fetches v) \<le> i + 2"
    using g(1) assms(2) by (simp add: counts_def Let_def)
  ultimately show ?thesis by simp
qed

lemma pc_good:
  assumes "good_inv ab cur a v"
    and "\<And>k. k < length (i_audios v) \<Longrightarrow> \<not> sounding (i_audios v ! k)"
    and "counts (v\<lparr>i_pc := p\<rparr>)" and "low (v\<lparr>i_pc := p\<rparr>) \<le> low v"
    and "i_pc v \<noteq> Returned"
  shows "good_inv ab cur a (v\<lparr>i_pc := p\<rparr>)"
proof (rule good_invI)
  let ?v = "v\<lparr>i_pc := p\<rparr>"
  note g = good_invD [OF assms(1)]
  show "counts ?v" by (rule assms(3))
  show "flights ?v"
    unfolding flights_def
  proof (intro allI impI)
    fix j assume "j < length (i_fetches ?v)" and "in_flight (i_fetches ?v ! j)"
    then have "low v \<le> j" using flightsD [OF g(2), of j] by simp
    then show "low ?v \<le> j" using assms(4) by simp
  qed
  show "\<not> i_aborted ?v \<and> i_pc ?v \<noteq> Returned \<longrightarrow> ab = Some a"
    using g(3) assms(5) by simp
  show "cancelled ?v" using g(5) by (simp add: cancelled_def)
  show "audio_ok cur a ?v k" if "k < length (i_audios ?v)" for k
    using audio_ok_silent [OF g(4) [of k] assms(2) [of k]] that by simp
qed

lemma after_loop_inv:
  assumes "tts_inv s" and "a < length (invs s)" and "i_pc (invs s ! a) \<noteq> Returned"
    and "\<And>k. k < length (i_audios (invs s ! a)) \<Longrightarrow> \<not> sounding (i_audios (invs s ! a) ! k)"
    and "\<And>j. j < length (i_fetches (invs s ! a)) \<Longrightarrow> in_flight (i_fetches (invs s ! a) ! j) \<Longrightarrow>
           length (i_fetches (invs s ! a)) - 1 \<le> j"
  shows "tts_inv (after_loop a s)"
proof (cases "i_aborted (invs s ! a)")
  case True
  then have e: "after_loop a s = upd_inv a (\<lambda>v. v\<lparr>i_pc := Returned\<rparr>) s"
    by (simp add: after_loop_def Let_def)
  show ?thesis
    unfolding e
    by (rule tts_inv_upd_inv [OF assms(1)])
       (rule return_good [OF tts_invD [OF assms(1,2)] assms(4,5)])
next
  case False
  then have na: "\<not> inactive (invs s ! a)" using assms(3) by (simp add: inactive_def)
  show ?thesis
  proof (rule tts_inv_active_step [OF assms(1,2) na])
    show "invs (after_loop a s) = (invs s)[a := (invs s ! a)\<lparr>i_pc := Returned\<rparr>]"
      using False by (simp add: after_loop_def Let_def upd_inv_def)
    show "ttsAbort (after_loop a s) = ttsAbort s"
      by (simp add: after_loop_def Let_def)
    show "good_inv (ttsAbort s) (currentAudio (after_loop a s)) a
        ((invs s ! a)\<lparr>i_pc := Returned\<rparr>)"
      by (rule return_good [OF tts_invD [OF assms(1,2)] assms(4,5)])
  qed
qed

lemma resume_inv:
  assumes "tts_inv s"
  shows "tts_inv (resume a s)"
proof (cases "a < length (invs s)")
  case False
  then show ?thesis using assms by (simp add: resume_def)
next
  case a: True
  let ?v = "invs s ! a"
  note gi = tts_invD [OF assms a]
  note g = good_invD [OF gi]
  show ?thesis
  proof (cases "i_pc ?v")
    case (AwaitResp i)
    have len: "length (i_fetches ?v) = i + 1" "length (i_audios ?v) = i"
      "i < length (i_chunks ?v)"
      using g(1) AwaitResp by (simp_all add: counts_def Let_def)
    have silent: "\<not> sounding (i_audios ?v ! k)" if "k < length (i_audios ?v)" for k
      using no_sounding [OF gi that] AwaitResp by simp
    show ?thesis
    proof (cases "i_fetches ?v ! i")
      case Pending
      then show ?thesis using assms a AwaitResp len by (simp add: resume_def)
    next
      case Consumed
      then show ?thesis using assms a AwaitResp len by (simp add: resume_def)
    next
      case (Rejected e)
      then have "resume a s = catch_block a e s"
        using a AwaitResp len by (simp add: resume_def)
      then show ?thesis
        using catch_block_inv [OF assms a, of i e] AwaitResp by simp
    next
      case (Fulfilled ok)
      show ?thesis
      proof (cases ok)
        case False
        then have e: "resume a s = upd_inv a (\<lambda>v. v\<lparr>i_pc := AwaitErrBody i\<rparr>) s"
          using a AwaitResp len Fulfilled by (simp add: resume_def)
        show ?thesis
          unfolding e
        proof (rule tts_inv_upd_inv [OF assms], rule pc_good [OF gi silent])
          show "counts (?v\<lparr>i_pc := AwaitErrBody i\<rparr>)"
            using g(1) AwaitResp by (simp add: counts_def low_def Let_def)
          show "low (?v\<lparr>i_pc := AwaitErrBody i\<rparr>) \<le> low ?v"
            using AwaitResp by (simp add: low_def)
          show "i_pc ?v \<noteq> Returned" using AwaitResp by simp
        qed
      next
        case True
        show ?thesis
        proof (cases "i + 1 < length (i_chunks ?v)")
          case False
          then have e: "resume a s = upd_inv a (\<lambda>v. v\<lparr>i_pc := AwaitBlob i\<rparr>) s"
            using a AwaitResp len Fulfilled True by (simp add: resume_def)
          show ?thesis
            unfolding e
          proof (rule tts_inv_upd_inv [OF assms], rule pc_good [OF gi silent])
            show "counts (?v\<lparr>i_pc := AwaitBlob i\<rparr>)"
              using g(1) AwaitResp False by (simp add: counts_def low_def Let_def)
            show "low (?v\<lparr>i_pc := AwaitBlob i\<rparr>) \<le> low ?v"
              using AwaitResp by (simp add: low_def)
            show "i_pc ?v \<noteq> Returned" using AwaitResp by simp
          qed
        next
          case more: True
          let ?x = "if i_aborted ?v then Rejected AbortError else Pending"
          let ?w = "?v\<lparr>i_fetches := i_fetches ?v @ [?x], i_pc := AwaitBlob i\<rparr>"
          show ?thesis
          proof (rule tts_inv_local_step [OF assms, where a = a and v' = ?w])
            show "invs (resume a s) = (invs s)[a := ?w]"
              using a AwaitResp len Fulfilled True more
              by (simp add: resume_def upd_inv_def Let_def)
            show "ttsAbort (resume a s) = ttsAbort s"
              using a AwaitResp len Fulfilled True more by (simp add: resume_def)
            show "currentAudio (resume a s) = currentAudio s"
              using a AwaitResp len Fulfilled True more by (simp add: resume_def)
            show "good_inv (ttsAbort s) (currentAudio s) a ?w"
            proof (rule good_invI)
              show "counts ?w"
                using g(1) AwaitResp more len by (simp add: counts_def low_def Let_def)
              show "flights ?w"
                unfolding flights_def
              proof (intro allI impI)
                fix j assume j: "j < length (i_fetches ?w)" and f: "in_flight (i_fetches ?w ! j)"
                show "low ?w \<le> j"
                proof (cases "j < length (i_fetches ?v)")
                  case True
                  then have "in_flight (i_fetches ?v ! j)" using f by (simp add: nth_append)
                  then have "low ?v \<le> j" using flightsD [OF g(2) True] by simp
                  then show ?thesis using AwaitResp by (simp add: low_def)
                next
                  case False
                  then show ?thesis using len by (simp add: low_def)
                qed
              qed
              show "\<not> i_aborted ?w \<and> i_pc ?w \<noteq> Returned \<longrightarrow> ttsAbort s = Some a"
                using g(3) AwaitResp by simp
              show "cancelled ?w" using g(5) by (simp add: cancelled_def)
              show "audio_ok (currentAudio s) a ?w k" if "k < length (i_audios ?w)" for k
                using audio_ok_silent [OF g(4) [of k] silent [of k]] that by simp
            qed
          qed
        qed
      qed
    qed
  next
    case (AwaitPlayback i)
    have len: "length (i_audios ?v) = i + 1" "i < length (i_chunks ?v)"
      "length (i_fetches ?v) = min (i + 2) (length (i_chunks ?v))"
      using g(1) AwaitPlayback by (simp_all add: counts_def Let_def)
    show ?thesis
    proof (cases "a_resolved (i_audios ?v ! i)")
      case False
      then show ?thesis using assms a AwaitPlayback by (simp add: resume_def)
    next
      case True
      then have e: "resume a s = loop_head a (i + 1) s"
        using a AwaitPlayback len by (simp add: resume_def)
      have silent: "\<not> sounding (i_audios ?v ! k)" if "k < length (i_audios ?v)" for k
        using no_sounding [OF gi that] AwaitPlayback True by (cases "k = i") simp_all
      show ?thesis
      proof (cases "i + 1 < length (i_chunks ?v) \<and> \<not> i_aborted ?v")
        case True
        then have e': "resume a s = upd_inv a (\<lambda>v. v\<lparr>i_pc := AwaitResp (i + 1)\<rparr>) s"
          unfolding e by (simp add: loop_head_def Let_def)
        show ?thesis
          unfolding e'
        proof (rule tts_inv_upd_inv [OF assms], rule pc_good [OF gi silent])
          show "counts (?v\<lparr>i_pc := AwaitResp (i + 1)\<rparr>)"
            using g(1) AwaitPlayback True by (simp add: counts_def low_def Let_def)
          show "low (?v\<lparr>i_pc := AwaitResp (i + 1)\<rparr>) \<le> low ?v"
            using AwaitPlayback by (simp add: low_def)
          show "i_pc ?v \<noteq> Returned" using AwaitPlayback by simp
        qed
      next
        case False
        then have e': "resume a s = after_loop a s"
          unfolding e by (auto simp: loop_head_def Let_def)
        show ?thesis
          unfolding e'
        proof (rule after_loop_inv [OF assms a])
          show "i_pc ?v \<noteq> Returned" using AwaitPlayback by simp
          show "\<not> sounding (i_audios ?v ! k)" if "k < length (i_audios ?v)" for k
            by (rule silent [OF that])
          show "length (i_fetches ?v) - 1 \<le> j"
            if "j < length (i_fetches ?v)" "in_flight (i_fetches ?v ! j)" for j
            by (rule playback_flights [OF gi AwaitPlayback that])
        qed
      qed
    qed
  qed (use assms a in \<open>simp_all add: resume_def\<close>)
qed

lemma consume_inv:
  assumes "tts_inv s"
  shows "tts_inv (upd_inv a (\<lambda>v. v\<lparr>i_fetches := (i_fetches v)[i := Consumed]\<rparr>) s)"
  by (rule tts_inv_upd_inv [OF assms]) (rule fetch_update_good [OF tts_invD [OF assms]], simp_all)

lemma body_done_inv:
  assumes "tts_inv s"
  shows "tts_inv (body_done a out s)"
proof (cases "a < length (invs s)")
  case False
  then show ?thesis using assms by (simp add: body_done_def)
next
  case a: True
  let ?v = "invs s ! a"
  note gi = tts_invD [OF assms a]
  note g = good_invD [OF gi]
  show ?thesis
  proof (cases "i_pc ?v")
    case (AwaitErrBody i)
    let ?s1 = "upd_inv a (\<lambda>v. v\<lparr>i_fetches := (i_fetches v)[i := Consumed]\<rparr>) s"
    have e: "body_done a out s = catch_block a OtherError ?s1"
      using a AwaitErrBody by (simp add: body_done_def)
    have a1: "a < length (invs ?s1)" using a by simp
    show ?thesis
      unfolding e
      by (rule catch_block_inv [OF consume_inv [OF assms] a1, of i])
         (use a AwaitErrBody in \<open>simp add: invs_upd_inv\<close>)
  next
    case (AwaitBlob i)
    let ?s1 = "upd_inv a (\<lambda>v. v\<lparr>i_fetches := (i_fetches v)[i := Consumed]\<rparr>) s"
    let ?v1 = "?v\<lparr>i_fetches := (i_fetches ?v)[i := Consumed]\<rparr>"
    have inv1: "tts_inv ?s1" by (rule consume_inv [OF assms])
    have a1: "a < length (invs ?s1)" using a by simp
    have v1: "invs ?s1 ! a = ?v1" using a by (simp add: invs_upd_inv)
    have len: "length (i_audios ?v) = i" "i < length (i_chunks ?v)"
      "length (i_fetches ?v) = min (i + 2) (length (i_chunks ?v))"
      using g(1) AwaitBlob by (simp_all add: counts_def Let_def)
    then have il: "i < length (i_fetches ?v)" by simp
    note gi1 = tts_invD [OF inv1 a1, unfolded v1]
    note g1 = good_invD [OF gi1]
    have silent: "\<not> sounding (i_audios ?v1 ! k)" if "k < length (i_audios ?v1)" for k
      using no_sounding [OF gi1 that] AwaitBlob by simp
    have fl: "i + 1 \<le> j" if "j < length (i_fetches ?v1)" "in_flight (i_fetches ?v1 ! j)" for j
    proof -
      have "i \<le> j" using flightsD [OF g1(2) that] AwaitBlob by (simp add: low_def)
      moreover have "j \<noteq> i" using that il by auto
      ultimately show ?thesis by simp
    qed
    show ?thesis
    proof (cases out)
      case (BodyFails e)
      then have e: "body_done a out s = catch_block a e ?s1"
        using a AwaitBlob by (simp add: body_done_def Let_def)
      show ?thesis
        unfolding e
        by (rule catch_block_inv [OF inv1 a1, of i])
           (use AwaitBlob il in \<open>simp add: v1\<close>)
    next
      case BodyOk
      show ?thesis
      proof (cases "i_aborted ?v")
        case True
        then have e: "body_done a out s = after_loop a ?s1"
          using a AwaitBlob BodyOk by (simp add: body_done_def Let_def)
        show ?thesis
          unfolding e
        proof (rule after_loop_inv [OF inv1 a1], unfold v1)
          show "i_pc ?v1 \<noteq> Returned" using AwaitBlob by simp
          show "\<not> sounding (i_audios ?v1 ! k)" if "k < length (i_audios ?v1)" for k
            by (rule silent [OF that])
          show "length (i_fetches ?v1) - 1 \<le> j"
            if "j < length (i_fetches ?v1)" "in_flight (i_fetches ?v1 ! j)" for j
            using fl [OF that] len by simp
        qed
      next
        case False
        let ?new = "\<lparr>a_state = Loading, a_play = PPending, a_revoked = 0, a_resolved = False\<rparr>"
        let ?w = "?v1\<lparr>i_audios := i_audios ?v1 @ [?new], i_pc := AwaitPlayback i\<rparr>"
        have na: "\<not> inactive (invs ?s1 ! a)"
          using False AwaitBlob by (simp add: v1 inactive_def)
        show ?thesis
        proof (rule tts_inv_active_step [OF inv1 a1 na, where v' = ?w])
          show "invs (body_done a out s) = (invs ?s1)[a := ?w]"
            using a AwaitBlob BodyOk False
            by (simp add: body_done_def Let_def upd_inv_def)
          show "ttsAbort (body_done a out s) = ttsAbort ?s1"
            using a AwaitBlob BodyOk False by (simp add: body_done_def Let_def)
          have cur: "currentAudio (body_done a out s) = Some (a, i)"
            using a AwaitBlob BodyOk False by (simp add: body_done_def Let_def)
          show "good_inv (ttsAbort ?s1) (currentAudio (body_done a out s)) a ?w"
            unfolding cur
          proof (rule good_invI)
            show "counts ?w"
              using g1(1) AwaitBlob len by (auto simp: counts_def low_def Let_def min_def)
            show "flights ?w"
              unfolding flights_def
            proof (intro allI impI)
              fix j assume "j < length (i_fetches ?w)" and "in_flight (i_fetches ?w ! j)"
              then show "low ?w \<le> j" using fl [of j] by (simp add: low_def)
            qed
            show "\<not> i_aborted ?w \<and> i_pc ?w \<noteq> Returned \<longrightarrow> ttsAbort ?s1 = Some a"
              using g1(3) AwaitBlob by simp
            show "cancelled ?w" using g1(5) by (simp add: cancelled_def)
            show "audio_ok (Some (a, i)) a ?w k" if "k < length (i_audios ?w)" for k
            proof (cases "k < i")
              case True
              then have k: "k < length (i_audios ?v1)" using len by simp
              have "audio_ok (Some (a, i)) a ?v1 k"
                by (rule audio_ok_silent [OF g1(4) [OF k] silent [OF k]]) simp
              then show ?thesis
                using silent [OF k] k by (auto simp: audio_ok_def Let_def nth_append)
            next
              case False
              then have "k = i" using that len by simp
              then show ?thesis
                using len \<open>\<not> i_aborted ?v\<close>
                by (simp add: audio_ok_def Let_def nth_append sounding_def)
            qed
          qed
        qed
      qed
    qed
  qed (use assms a in \<open>simp_all add: body_done_def\<close>)
qed

text \<open>An update of one audio element whose result is sound.\<close>

lemma audio_update_inv:
  assumes "tts_inv s" and "has_audio s a i"
    and "audio_ok (currentAudio s) a
           ((invs s ! a)\<lparr>i_audios := (i_audios (invs s ! a))[i := f (the_audio s a i)]\<rparr>) i"
  shows "tts_inv (upd_audio a i f s)"
  unfolding upd_audio_def
proof (rule tts_inv_upd_inv [OF assms(1)], rule good_invI)
  let ?v = "invs s ! a"
  let ?w = "?v\<lparr>i_audios := (i_audios ?v)[i := f (i_audios ?v ! i)]\<rparr>"
  have a: "a < length (invs s)" and i: "i < length (i_audios ?v)"
    using assms(2) by (simp_all add: has_audio_def)
  note g = good_invD [OF tts_invD [OF assms(1) a]]
  have l: "low ?w = low ?v" by (rule low_cong) simp_all
  show "counts ?w"
    using g(1) unfolding counts_def Let_def l by (simp split: pc.splits)
  show "flights ?w"
    using g(2) unfolding flights_def l by simp
  show "\<not> i_aborted ?w \<and> i_pc ?w \<noteq> Returned \<longrightarrow> ttsAbort s = Some a"
    using g(3) by simp
  show "cancelled ?w" using g(5) by (simp add: cancelled_def)
  show "audio_ok (currentAudio s) a ?w k" if "k < length (i_audios ?w)" for k
  proof (cases "k = i")
    case True
    then show ?thesis using assms(3) by (simp add: the_audio_def)
  next
    case False
    then show ?thesis using g(4) [of k] that by (auto simp: audio_ok_def Let_def)
  qed
qed

lemma audio_ok_done:
  assumes "i < length (i_audios v)" and "\<not> sounding x" and "a_resolved x" and "0 < a_revoked x"
  shows "audio_ok cur a (v\<lparr>i_audios := (i_audios v)[i := x]\<rparr>) i"
  using assms by (simp add: audio_ok_def Let_def)

lemma step_inv:
  assumes "tts_inv s"
  shows "tts_inv (step s ev)"
proof (cases ev)
  case (Narrate t)
  have "tts_inv (s\<lparr>buttons := buttons s @ [makeTTSButton t]\<rparr>)" using assms by simp
  then show ?thesis unfolding Narrate step.simps by (rule playTTS_inv)
next
  case (Click b)
  then show ?thesis
    using assms by (simp add: playTTS_inv stopTTS_inv split: click.splits)
next
  case (FetchSettles a j out)
  then show ?thesis using settle_inv [OF assms] by simp
next
  case (Resume a)
  then show ?thesis using resume_inv [OF assms] by simp
next
  case (BodyDone a out)
  then show ?thesis using body_done_inv [OF assms] by simp
next
  case (PlayStarted a i)
  show ?thesis
  proof (cases "has_audio s a i \<and> a_state (the_audio s a i) = Loading
      \<and> a_play (the_audio s a i) = PPending")
    case False
    then show ?thesis using assms PlayStarted by auto
  next
    case True
    then have h: "has_audio s a i" by simp
    then have a: "a < length (invs s)" and i: "i < length (i_audios (invs s ! a))"
      by (simp_all add: has_audio_def)
    have "audio_ok (currentAudio s) a (invs s ! a) i"
      by (rule good_invD(4) [OF tts_invD [OF assms a] i])
    then have "tts_inv (upd_audio a i (\<lambda>au. au\<lparr>a_state := Playing, a_play := PResolved\<rparr>) s)"
      using True i
      by (intro audio_update_inv [OF assms h])
         (auto simp: audio_ok_def Let_def the_audio_def sounding_def)
    then show ?thesis using True PlayStarted by simp
  qed
next
  case (PlayRejected a i)
  show ?thesis
  proof (cases "has_audio s a i \<and> a_play (the_audio s a i) = PPending")
    case False
    then show ?thesis using assms PlayRejected by auto
  next
    case True
    then have h: "has_audio s a i" by simp
    then have i: "i < length (i_audios (invs s ! a))" by (simp add: has_audio_def)
    have "tts_inv (upd_audio a i (\<lambda>au. release (pause (au\<lparr>a_play := PRejected\<rparr>))) s)"
      by (rule audio_update_inv [OF assms h], rule audio_ok_done [OF i])
         (simp_all add: release_def pause_def sounding_def)
    then show ?thesis using True PlayRejected by simp
  qed
next
  case (AudioEnded a i)
  show ?thesis
  proof (cases "has_audio s a i \<and> a_state (the_audio s a i) = Playing")
    case False
    then show ?thesis using assms AudioEnded by auto
  next
    case True
    then have h: "has_audio s a i" by simp
    then have i: "i < length (i_audios (invs s ! a))" by (simp add: has_audio_def)
    have "tts_inv (upd_audio a i (\<lambda>au. release (au\<lparr>a_state := Ended\<rparr>)) s)"
      by (rule audio_update_inv [OF assms h], rule audio_ok_done [OF i])
         (simp_all add: release_def sounding_def)
    then show ?thesis using True AudioEnded by simp
  qed
next
  case (AudioError a i)
  show ?thesis
  proof (cases "has_audio s a i \<and> a_state (the_audio s a i) \<noteq> Ended
      \<and> a_state (the_audio s a i) \<noteq> Errored")
    case False
    then show ?thesis using assms AudioError by auto
  next
    case True
    then have h: "has_audio s a i" by simp
    then have i: "i < length (i_audios (invs s ! a))" by (simp add: has_audio_def)
    have "tts_inv (upd_audio a i (\<lambda>au. release (au\<lparr>a_state := Errored\<rparr>)) s)"
      by (rule audio_update_inv [OF assms h], rule audio_ok_done [OF i])
         (simp_all add: release_def sounding_def)
    then show ?thesis using True AudioError by simp
  qed
qed

lemma run_inv: "tts_inv s \<Longrightarrow> tts_inv (run s evs)"
  unfolding run_def by (induction evs arbitrary: s) (simp_all add: step_inv)

lemma tts_inv_init: "tts_inv tts_init"
  by (simp add: tts_inv_def tts_init_def)

lemma reachable_inv: "tts_inv (run tts_init evs)"
  by (rule run_inv [OF tts_inv_init])

lemma extends_refl [simp]: "extends v v"
  by (simp add: extends_def)

lemma extends_trans: "extends u v \<Longrightarrow> extends v w \<Longrightarrow> extends u w"
  unfolding extends_def
  by (auto intro: order_trans)

lemma upd_inv_extends:
  assumes "a < length (invs s)" and "extends (invs s ! a) (f (invs s ! a))"
  shows "extends (invs s ! a) (invs (upd_inv b f s) ! a)"
  using assms by (cases "a = b") (simp_all add: invs_upd_inv)

lemma extends_abort_rec:
  "extends v (v\<lparr>i_aborted := True, i_fetches := map abort_fetch (i_fetches v),
       i_audios := map (\<lambda>au. release (pause au)) (i_audios v)\<rparr>)"
  by (simp add: extends_def release_def pause_def)

lemma abort_extends:
  "a < length (invs s) \<Longrightarrow> extends (invs s ! a) (invs (abort b s) ! a)"
  by (cases "a = b") (simp_all add: abort_def invs_upd_inv extends_abort_rec)

lemma extends_audio:
  assumes "a_revoked (i_audios v ! i) \<le> a_revoked x"
  shows "extends v (v\<lparr>i_audios := (i_audios v)[i := x]\<rparr>)"
proof -
  have "a_revoked (i_audios v ! k) \<le> a_revoked ((i_audios v)[i := x] ! k)"
    if "k < length (i_audios v)" for k
    using assms that by (cases "k = i") simp_all
  then show ?thesis by (simp add: extends_def)
qed

lemma upd_audio_extends:
  assumes "a < length (invs s)" and "\<And>au. a_revoked au \<le> a_revoked (f au)"
  shows "extends (invs s ! a) (invs (upd_audio b i f s) ! a)"
  unfolding upd_audio_def
  by (rule upd_inv_extends [OF assms(1)]) (rule extends_audio, rule assms(2))

lemma upd_audio_length [simp]: "length (invs (upd_audio b i f s)) = length (invs s)"
  by (simp add: upd_audio_def)

lemma stopTTS_extends:
  assumes "a < length (invs s)"
  shows "length (invs (stopTTS s)) = length (invs s)"
    and "extends (invs s ! a) (invs (stopTTS s) ! a)"
proof -
  define s1 where "s1 = (case ttsAbort s of Some a \<Rightarrow> (abort a s)\<lparr>ttsAbort := None\<rparr> | None \<Rightarrow> s)"
  define s2 where "s2 = (case currentAudio s1 of
      Some (a, i) \<Rightarrow> (act (ActPause a i) (upd_audio a i pause s1))\<lparr>currentAudio := None\<rparr>
    | None \<Rightarrow> s1)"
  have l1: "length (invs s1) = length (invs s)"
    by (simp add: s1_def split: option.splits)
  have e1: "extends (invs s ! a) (invs s1 ! a)"
    using assms by (simp add: s1_def abort_extends split: option.splits)
  have a1: "a < length (invs s1)" using assms l1 by simp
  have p: "a_revoked au \<le> a_revoked (pause au)" for au
    by (simp add: pause_def)
  have l2: "length (invs s2) = length (invs s)"
    using l1 by (simp add: s2_def split: option.splits prod.splits)
  have "extends (invs s1 ! a) (invs s2 ! a)"
    using upd_audio_extends [OF a1, of pause, OF p]
    by (simp add: s2_def split: option.splits prod.splits)
  then have e2: "extends (invs s ! a) (invs s2 ! a)"
    using e1 extends_trans by blast
  have iv: "invs (stopTTS s) = invs s2"
    unfolding stopTTS_def Let_def s1_def [symmetric] s2_def [symmetric] by simp
  show "length (invs (stopTTS s)) = length (invs s)" using l2 by (simp add: iv)
  show "extends (invs s ! a) (invs (stopTTS s) ! a)" using e2 by (simp add: iv)
qed

lemma playTTS_extends:
  assumes "a < length (invs s)"
  shows "length (invs (playTTS t b s)) = length (invs s) + 1"
    and "extends (invs s ! a) (invs (playTTS t b s) ! a)"
proof -
  have l: "length (invs (stopTTS s)) = length (invs s)"
    by (rule stopTTS_extends(1) [OF assms])
  show "length (invs (playTTS t b s)) = length (invs s) + 1"
    by (simp add: playTTS_def Let_def l)
  have "invs (playTTS t b s) ! a = invs (stopTTS s) ! a"
    using assms l by (simp add: playTTS_def Let_def nth_append)
  then show "extends (invs s ! a) (invs (playTTS t b s) ! a)"
    using stopTTS_extends(2) [OF assms] by simp
qed

lemma catch_extends:
  "a < length (invs s) \<Longrightarrow> extends (invs s ! a) (invs (catch_block b e s) ! a)"
  by (cases "a = b") (simp_all add: extends_def)

lemma after_loop_extends:
  "a < length (invs s) \<Longrightarrow> extends (invs s ! a) (invs (after_loop b s) ! a)"
  by (cases "a = b") (simp_all add: after_loop_def Let_def invs_upd_inv extends_def)

lemma resume_extends:
  assumes "a < length (invs s)"
  shows "extends (invs s ! a) (invs (resume b s) ! a)"
proof (cases "a = b")
  case False
  then have "invs (resume b s) ! a = invs s ! a"
    using assms
    by (auto simp: resume_def loop_head_def after_loop_def Let_def invs_upd_inv
        split: pc.splits fetch_state.splits)
  then show ?thesis by simp
next
  case True
  then show ?thesis
    using assms
    by (auto simp: resume_def loop_head_def after_loop_def Let_def invs_upd_inv extends_def
          nth_append
        split: pc.splits fetch_state.splits)
qed

lemma body_done_extends:
  assumes "a < length (invs s)"
  shows "extends (invs s ! a) (invs (body_done b out s) ! a)"
proof (cases "a = b")
  case False
  then have "invs (body_done b out s) ! a = invs s ! a"
    using assms
    by (auto simp: body_done_def after_loop_def Let_def invs_upd_inv upd_inv_def
        split: pc.splits body_outcome.splits)
  then show ?thesis by simp
next
  case True
  then show ?thesis
    using assms
    by (auto simp: body_done_def after_loop_def Let_def invs_upd_inv upd_inv_def extends_def
          nth_append
        split: pc.splits body_outcome.splits)
qed

lemma resume_length [simp]: "length (invs (resume b s)) = length (invs s)"
  by (auto simp: resume_def loop_head_def after_loop_def Let_def
      split: pc.splits fetch_state.splits)

lemma body_done_length [simp]: "length (invs (body_done b out s)) = length (invs s)"
  by (auto simp: body_done_def after_loop_def Let_def upd_inv_def
      split: pc.splits body_outcome.splits)

lemma step_extends:
  assumes "a < length (invs s)"
  shows "a < length (invs (step s ev)) \<and> extends (invs s ! a) (invs (step s ev) ! a)"
proof (cases ev)
  case (Narrate t)
  let ?s = "s\<lparr>buttons := buttons s @ [makeTTSButton t]\<rparr>"
  have "a < length (invs ?s)" using assms by simp
  from playTTS_extends [OF this, of t "length (buttons s)"] assms show ?thesis
    by (simp add: Narrate)
next
  case (Click b)
  show ?thesis
  proof (cases "b < length (buttons s) \<and> \<not> disabled (buttons s ! b)")
    case False
    then show ?thesis using assms Click by auto
  next
    case True
    show ?thesis
    proof (cases "onclick (buttons s ! b)")
      case (DoPlay t)
      then show ?thesis using playTTS_extends [OF assms, of t b] assms True Click by simp
    next
      case DoStop
      then show ?thesis using stopTTS_extends [OF assms] assms True Click by simp
    qed
  qed
next
  case (FetchSettles b j out)
  have "extends (invs s ! a)
      (invs (upd_inv b (\<lambda>v. v\<lparr>i_fetches := (i_fetches v)[j := settle out (i_fetches v ! j)]\<rparr>) s) ! a)"
    by (rule upd_inv_extends [OF assms]) (simp add: extends_def)
  then show ?thesis using assms FetchSettles by simp
next
  case (Resume b)
  then show ?thesis using assms resume_extends by simp
next
  case (BodyDone b out)
  then show ?thesis using assms body_done_extends by simp
next
  case (PlayStarted b i)
  have "extends (invs s ! a)
      (invs (upd_audio b i (\<lambda>au. au\<lparr>a_state := Playing, a_play := PResolved\<rparr>) s) ! a)"
    by (rule upd_audio_extends [OF assms]) simp
  then show ?thesis using assms PlayStarted by simp
next
  case (PlayRejected b i)
  have "extends (invs s ! a)
      (invs (upd_audio b i (\<lambda>au. release (pause (au\<lparr>a_play := PRejected\<rparr>))) s) ! a)"
    by (rule upd_audio_extends [OF assms]) (simp add: release_def pause_def)
  then show ?thesis using assms PlayRejected by simp
next
  case (AudioEnded b i)
  have "extends (invs s ! a)
      (invs (upd_audio b i (\<lambda>au. release (au\<lparr>a_state := Ended\<rparr>)) s) ! a)"
    by (rule upd_audio_extends [OF assms]) (simp add: release_def)
  then show ?thesis using assms AudioEnded by simp
next
  case (AudioError b i)
  have "extends (invs s ! a)
      (invs (upd_audio b i (\<lambda>au. release (au\<lparr>a_state := Errored\<rparr>)) s) ! a)"
    by (rule upd_audio_extends [OF assms]) (simp add: release_def)
  then show ?thesis using assms AudioError by simp
qed

lemma run_extends:
  "a < length (invs s) \<Longrightarrow>
   a < length (invs (run s evs)) \<and> extends (invs s ! a) (invs (run s evs) ! a)"
proof (induction evs arbitrary: s)
  case Nil
  then show ?case by (simp add: run_def)
next
  case (Cons ev evs)
  note st = step_extends [OF Cons.prems, of ev]
  then have a: "a < length (invs (step s ev))" by simp
  from Cons.IH [OF a] st show ?case
    using extends_trans by (auto simp: run_def)
qed

lemma filter_from:
  assumes "\<forall>j < length xs. P (xs ! j) \<longrightarrow> l \<le> j"
  shows "length (filter P xs) \<le> length xs - l"
proof -
  have "filter P (take l xs) = []"
    unfolding filter_empty_conv
  proof
    fix x assume "x \<in> set (take l xs)"
    then obtain j where j: "j < length (take l xs)" and x: "x = take l xs ! j"
      by (auto simp: in_set_conv_nth)
    then have "j < l" "j < length xs" "x = xs ! j" by simp_all
    then show "\<not> P x" using assms by auto
  qed
  then have "filter P xs = filter P (drop l xs)"
    by (metis append_Nil append_take_drop_id filter_append)
  then have "length (filter P xs) \<le> length (drop l xs)"
    using length_filter_le [of P "drop l xs"] by simp
  then show ?thesis by simp
qed

lemma in_flight_bound:
  assumes "good_inv ab cur a v"
  shows "length (filter in_flight (i_fetches v)) \<le> 2"
proof -
  note g = good_invD [OF assms]
  have "length (filter in_flight (i_fetches v)) \<le> length (i_fetches v) - low v"
    by (rule filter_from) (use g(2) in \<open>simp add: flights_def\<close>)
  moreover have "length (i_fetches v) \<le> low v + 2"
    using g(1) by (simp add: counts_def Let_def)
  ultimately show ?thesis by simp
qed

lemma prefetched:
  assumes "good_inv ab cur a v" and "i < length (i_audios v)" and "i + 1 < length (i_chunks v)"
  shows "i + 1 < length (i_fetches v)"
  using good_invD(1) [OF assms(1)] assms(2,3) by (auto simp: counts_def Let_def)

lemma resume_ok_response:
  assumes "a < length (invs s)" and "i_pc (invs s ! a) = AwaitResp i"
    and "length (i_fetches (invs s ! a)) = i + 1" and "i_fetches (invs s ! a) ! i = Fulfilled True"
    and "i + 1 < length (i_chunks (invs s ! a))"
  shows "invs (resume a s) ! a =
     (invs s ! a)\<lparr>i_fetches := i_fetches (invs s ! a) @
        [if i_aborted (invs s ! a) then Rejected AbortError else Pending],
       i_pc := AwaitBlob i\<rparr>"
  using assms by (simp add: resume_def upd_inv_def Let_def)

lemma playTTS_new:
  "invs (playTTS t b s) ! length (invs s) =
     \<lparr>i_text = t, i_btn = b, i_chunks = splitBySentence t, i_aborted = False,
       i_pc = AwaitResp 0, i_fetches = [Pending], i_audios = [], i_reported = False\<rparr>"
proof -
  define s1 where "s1 = (case ttsAbort s of Some a \<Rightarrow> (abort a s)\<lparr>ttsAbort := None\<rparr> | None \<Rightarrow> s)"
  define s2 where "s2 = (case currentAudio s1 of
      Some (a, i) \<Rightarrow> (act (ActPause a i) (upd_audio a i pause s1))\<lparr>currentAudio := None\<rparr>
    | None \<Rightarrow> s1)"
  have l1: "length (invs s1) = length (invs s)"
    by (simp add: s1_def split: option.splits)
  have l2: "length (invs s2) = length (invs s)"
    using l1 by (simp add: s2_def split: option.splits prod.splits)
  have iv: "invs (stopTTS s) = invs s2"
    unfolding stopTTS_def Let_def s1_def [symmetric] s2_def [symmetric] by simp
  show ?thesis
    by (simp add: playTTS_def Let_def iv upd_inv_def issue_fetch_def act_def upd_btn_def
        nth_append l2)
qed

text \<open>
  Claim C2. In every state the events can lead to and for every invocation: the fetch
  for chunk 0 exists from the call on, before the first pass through the loop; as soon
  as the response for chunk \<open>i\<close> is there and another chunk follows, the invocation
  issues the fetch for chunk \<open>i + 1\<close> in the same step, while chunk \<open>i\<close> is not decoded
  yet; so whenever the audio for chunk \<open>i\<close> exists, the fetch for chunk \<open>i + 1\<close> has been
  issued; and never more than two of its fetches are in flight.
\<close>

theorem prefetch_order:
  assumes "a < length (invs (run tts_init evs))"
  shows "i_fetches (invs (run tts_init evs) ! a) \<noteq> []
    \<and> (\<forall>i < length (i_audios (invs (run tts_init evs) ! a)).
          i + 1 < length (i_chunks (invs (run tts_init evs) ! a)) \<longrightarrow>
          i + 1 < length (i_fetches (invs (run tts_init evs) ! a)))
    \<and> length (filter in_flight (i_fetches (invs (run tts_init evs) ! a))) \<le> 2
    \<and> (\<forall>i. i_pc (invs (run tts_init evs) ! a) = AwaitResp i
          \<and> i_fetches (invs (run tts_init evs) ! a) ! i = Fulfilled True
          \<and> i + 1 < length (i_chunks (invs (run tts_init evs) ! a)) \<longrightarrow>
          i_pc (invs (step (run tts_init evs) (Resume a)) ! a) = AwaitBlob i
          \<and> length (i_fetches (invs (step (run tts_init evs) (Resume a)) ! a)) = i + 2
          \<and> length (i_audios (invs (step (run tts_init evs) (Resume a)) ! a)) = i)
    \<and> (\<forall>t b. i_pc (invs (playTTS t b (run tts_init evs)) ! length (invs (run tts_init evs)))
                = AwaitResp 0
          \<and> i_fetches (invs (playTTS t b (run tts_init evs)) ! length (invs (run tts_init evs)))
                = [Pending]
          \<and> i_audios (invs (playTTS t b (run tts_init evs)) ! length (invs (run tts_init evs)))
                = [])"
proof -
  let ?s = "run tts_init evs"
  let ?v = "invs ?s ! a"
  note gi = tts_invD [OF reachable_inv assms]
  note g = good_invD [OF gi]
  have 1: "i_fetches ?v \<noteq> []"
    using g(1) by (simp add: counts_def Let_def)
  have 2: "\<forall>i < length (i_audios ?v). i + 1 < length (i_chunks ?v) \<longrightarrow> i + 1 < length (i_fetches ?v)"
    using prefetched [OF gi] by blast
  have 3: "length (filter in_flight (i_fetches ?v)) \<le> 2"
    by (rule in_flight_bound [OF gi])
  have 4: "i_pc (invs (step ?s (Resume a)) ! a) = AwaitBlob i
          \<and> length (i_fetches (invs (step ?s (Resume a)) ! a)) = i + 2
          \<and> length (i_audios (invs (step ?s (Resume a)) ! a)) = i"
    if "i_pc ?v = AwaitResp i" "i_fetches ?v ! i = Fulfilled True" "i + 1 < length (i_chunks ?v)"
    for i
  proof -
    have len: "length (i_fetches ?v) = i + 1" "length (i_audios ?v) = i"
      using g(1) that(1) by (simp_all add: counts_def Let_def)
    show ?thesis
      using resume_ok_response [OF assms that(1) len(1) that(2,3)] len by simp
  qed
  show ?thesis
    using 1 2 3 4 by (simp add: playTTS_new)
qed

lemma run_append: "run s (evs @ evs') = run (run s evs) evs'"
  by (simp add: run_def)

lemma audio_step:
  assumes "has_audio s a i"
  shows "invs (upd_audio a i f s) ! a =
      (invs s ! a)\<lparr>i_audios := (i_audios (invs s ! a))[i := f (the_audio s a i)]\<rparr>"
    and "the_audio (upd_audio a i f s) a i = f (the_audio s a i)"
  using assms by (simp_all add: upd_audio_def upd_inv_def has_audio_def the_audio_def)

text \<open>
  Claim C4, as amended. In every state the events can lead to and for every audio
  element: \<open>resolve()\<close> was called exactly when its URL was revoked at least once, so the
  wait for a chunk is never left with the URL alive; an element that neither loads nor
  plays, and any element the loop has moved past, has its URL revoked; a revoked URL
  stays revoked; and each way out (end of playback, error, rejected \<open>play()\<close>, abort)
  calls \<open>revokeObjectURL\<close> once. The calls for one URL can add up to more than one.
\<close>

theorem url_released:
  assumes "has_audio (run tts_init evs) a i"
  shows "(a_resolved (the_audio (run tts_init evs) a i)
            \<longleftrightarrow> 0 < a_revoked (the_audio (run tts_init evs) a i))
    \<and> (\<not> sounding (the_audio (run tts_init evs) a i) \<longrightarrow>
          0 < a_revoked (the_audio (run tts_init evs) a i))
    \<and> (i_pc (invs (run tts_init evs) ! a) \<noteq> AwaitPlayback i \<longrightarrow>
          0 < a_revoked (the_audio (run tts_init evs) a i))
    \<and> (\<forall>evs'. has_audio (run (run tts_init evs) evs') a i
          \<and> a_revoked (the_audio (run tts_init evs) a i)
              \<le> a_revoked (the_audio (run (run tts_init evs) evs') a i))
    \<and> (a_state (the_audio (run tts_init evs) a i) = Playing \<longrightarrow>
          a_revoked (the_audio (step (run tts_init evs) (AudioEnded a i)) a i)
            = a_revoked (the_audio (run tts_init evs) a i) + 1)
    \<and> (a_state (the_audio (run tts_init evs) a i) \<noteq> Ended
          \<and> a_state (the_audio (run tts_init evs) a i) \<noteq> Errored \<longrightarrow>
          a_revoked (the_audio (step (run tts_init evs) (AudioError a i)) a i)
            = a_revoked (the_audio (run tts_init evs) a i) + 1)
    \<and> (a_play (the_audio (run tts_init evs) a i) = PPending \<longrightarrow>
          a_revoked (the_audio (step (run tts_init evs) (PlayRejected a i)) a i)
            = a_revoked (the_audio (run tts_init evs) a i) + 1)
    \<and> (\<not> i_aborted (invs (run tts_init evs) ! a) \<longrightarrow>
          a_revoked (the_audio (abort a (run tts_init evs)) a i)
            = a_revoked (the_audio (run tts_init evs) a i) + 1)"
proof -
  let ?s = "run tts_init evs"
  let ?au = "the_audio ?s a i"
  have a: "a < length (invs ?s)" and i: "i < length (i_audios (invs ?s ! a))"
    using assms by (simp_all add: has_audio_def)
  note gi = tts_invD [OF reachable_inv a]
  have ok: "audio_ok (currentAudio ?s) a (invs ?s ! a) i"
    by (rule good_invD(4) [OF gi i])
  have 1: "a_resolved ?au \<longleftrightarrow> 0 < a_revoked ?au"
    and 2: "\<not> sounding ?au \<longrightarrow> 0 < a_revoked ?au"
    and 3: "i_pc (invs ?s ! a) \<noteq> AwaitPlayback i \<longrightarrow> 0 < a_revoked ?au"
    using ok by (auto simp: audio_ok_def Let_def the_audio_def)
  have 4: "has_audio (run ?s evs') a i \<and> a_revoked ?au \<le> a_revoked (the_audio (run ?s evs') a i)"
    for evs'
    using run_extends [OF a, of evs'] i
    by (auto simp: extends_def has_audio_def the_audio_def)
  have 5: "a_state ?au = Playing \<longrightarrow>
      a_revoked (the_audio (step ?s (AudioEnded a i)) a i) = a_revoked ?au + 1"
    using assms by (simp add: audio_step release_def)
  have 6: "a_state ?au \<noteq> Ended \<and> a_state ?au \<noteq> Errored \<longrightarrow>
      a_revoked (the_audio (step ?s (AudioError a i)) a i) = a_revoked ?au + 1"
    using assms by (simp add: audio_step release_def)
  have 7: "a_play ?au = PPending \<longrightarrow>
      a_revoked (the_audio (step ?s (PlayRejected a i)) a i) = a_revoked ?au + 1"
    using assms by (simp add: audio_step release_def pause_def)
  have 8: "\<not> i_aborted (invs ?s ! a) \<longrightarrow>
      a_revoked (the_audio (abort a ?s) a i) = a_revoked ?au + 1"
    using a i by (simp add: abort_def invs_upd_inv the_audio_def release_def pause_def)
  show ?thesis
    using 1 2 3 4 5 6 7 8 by blast
qed

text \<open>Once an invocation has returned it stays as it is, whatever happens.\<close>

lemma returned_forever:
  assumes "a < length (invs s)" and "i_pc (invs s ! a) = Returned"
  shows "i_pc (invs (run s evs) ! a) = Returned
    \<and> length (i_fetches (invs (run s evs) ! a)) = length (i_fetches (invs s ! a))
    \<and> length (i_audios (invs (run s evs) ! a)) = length (i_audios (invs s ! a))"
  using run_extends [OF assms(1), of evs] assms(2) by (simp add: extends_def)

lemma resume_rejected:
  assumes "a < length (invs s)" and "i_pc (invs s ! a) = AwaitResp i"
    and "i < length (i_fetches (invs s ! a))" and "i_fetches (invs s ! a) ! i = Rejected e"
  shows "invs (resume a s) ! a =
     (invs s ! a)\<lparr>i_pc := Returned, i_reported := (i_reported (invs s ! a) \<or> e \<noteq> AbortError)\<rparr>"
  using assms by (simp add: resume_def)

lemma resume_bad_response:
  assumes "a < length (invs s)" and "i_pc (invs s ! a) = AwaitResp i"
    and "i < length (i_fetches (invs s ! a))" and "i_fetches (invs s ! a) ! i = Fulfilled False"
  shows "invs (resume a s) ! a = (invs s ! a)\<lparr>i_pc := AwaitErrBody i\<rparr>"
  using assms by (simp add: resume_def invs_upd_inv)

lemma body_done_error_body:
  assumes "a < length (invs s)" and "i_pc (invs s ! a) = AwaitErrBody i"
  shows "invs (body_done a out s) ! a =
     (invs s ! a)\<lparr>i_fetches := (i_fetches (invs s ! a))[i := Consumed],
        i_pc := Returned, i_reported := True\<rparr>"
  using assms by (simp add: body_done_def upd_inv_def Let_def)

lemma resume_after_wait:
  assumes "a < length (invs s)" and "i_pc (invs s ! a) = AwaitPlayback i"
    and "i < length (i_audios (invs s ! a))" and "a_resolved (i_audios (invs s ! a) ! i)"
    and "i + 1 < length (i_chunks (invs s ! a))" and "\<not> i_aborted (invs s ! a)"
  shows "invs (resume a s) ! a = (invs s ! a)\<lparr>i_pc := AwaitResp (i + 1)\<rparr>"
    and "currentAudio (resume a s) = currentAudio s"
  using assms by (simp_all add: resume_def loop_head_def Let_def invs_upd_inv)

lemma resume_ok_general:
  assumes "a < length (invs s)" and "i_pc (invs s ! a) = AwaitResp j"
    and "j < length (i_fetches (invs s ! a))" and "i_fetches (invs s ! a) ! j = Fulfilled True"
  shows "i_pc (invs (resume a s) ! a) = AwaitBlob j"
    and "i_audios (invs (resume a s) ! a) = i_audios (invs s ! a)"
    and "i_aborted (invs (resume a s) ! a) = i_aborted (invs s ! a)"
    and "i_reported (invs (resume a s) ! a) = i_reported (invs s ! a)"
  using assms by (simp_all add: resume_def upd_inv_def Let_def)

lemma body_done_decoded:
  assumes "a < length (invs s)" and "i_pc (invs s ! a) = AwaitBlob j"
    and "\<not> i_aborted (invs s ! a)"
  shows "i_pc (invs (body_done a BodyOk s) ! a) = AwaitPlayback j"
    and "i_audios (invs (body_done a BodyOk s) ! a) = i_audios (invs s ! a) @
      [\<lparr>a_state = Loading, a_play = PPending, a_revoked = 0, a_resolved = False\<rparr>]"
    and "currentAudio (body_done a BodyOk s) = Some (a, j)"
    and "i_reported (invs (body_done a BodyOk s) ! a) = i_reported (invs s ! a)"
  using assms by (simp_all add: body_done_def upd_inv_def Let_def)

text \<open>Playback goes on with the next chunk after the wait for chunk \<open>i\<close> has ended.\<close>

lemma continues_with_next:
  assumes a: "a < length (invs s)" and pc: "i_pc (invs s ! a) = AwaitPlayback i"
    and len: "length (i_audios (invs s ! a)) = i + 1" "length (i_fetches (invs s ! a)) = i + 2"
    and res: "a_resolved (i_audios (invs s ! a) ! i)"
    and more: "i + 1 < length (i_chunks (invs s ! a))" and na: "\<not> i_aborted (invs s ! a)"
    and next_ok: "i_fetches (invs s ! a) ! (i + 1) = Pending
                  \<or> i_fetches (invs s ! a) ! (i + 1) = Fulfilled True"
  shows "i_pc (invs (resume a s) ! a) = AwaitResp (i + 1)"
    and "i_reported (invs (resume a s) ! a) = i_reported (invs s ! a)"
    and "has_audio (run (resume a s) [FetchSettles a (i + 1) RespOk, Resume a, BodyDone a BodyOk])
            a (i + 1)"
    and "a_state (the_audio
            (run (resume a s) [FetchSettles a (i + 1) RespOk, Resume a, BodyDone a BodyOk])
            a (i + 1)) = Loading"
    and "currentAudio (run (resume a s) [FetchSettles a (i + 1) RespOk, Resume a, BodyDone a BodyOk])
            = Some (a, i + 1)"
    and "i_pc (invs (run (resume a s) [FetchSettles a (i + 1) RespOk, Resume a, BodyDone a BodyOk])
            ! a) = AwaitPlayback (i + 1)"
    and "i_reported (invs
            (run (resume a s) [FetchSettles a (i + 1) RespOk, Resume a, BodyDone a BodyOk]) ! a)
          = i_reported (invs s ! a)"
proof -
  let ?v = "invs s ! a"
  define s1 where "s1 = resume a s"
  define s2 where "s2 = step s1 (FetchSettles a (i + 1) RespOk)"
  define s3 where "s3 = step s2 (Resume a)"
  define s4 where "s4 = step s3 (BodyDone a BodyOk)"
  have v1: "invs s1 ! a = ?v\<lparr>i_pc := AwaitResp (i + 1)\<rparr>"
    unfolding s1_def using resume_after_wait(1) [OF a pc _ res more na] len by simp
  have a1: "a < length (invs s1)" using a by (simp add: s1_def)
  have st: "settle RespOk (i_fetches ?v ! (i + 1)) = Fulfilled True"
    using next_ok by (auto simp: settle_def)
  have v2: "invs s2 ! a = ?v\<lparr>i_pc := AwaitResp (i + 1),
      i_fetches := (i_fetches ?v)[i + 1 := Fulfilled True]\<rparr>"
    unfolding s2_def using a1 v1 len st by (simp add: invs_upd_inv)
  have a2: "a < length (invs s2)" unfolding s2_def using a1 v1 len by simp
  have p2: "i_pc (invs s2 ! a) = AwaitResp (i + 1)"
    "i + 1 < length (i_fetches (invs s2 ! a))"
    "i_fetches (invs s2 ! a) ! (i + 1) = Fulfilled True"
    using len by (simp_all add: v2)
  note r3 = resume_ok_general [OF a2 p2, folded step.simps(4) s3_def]
  have a3: "a < length (invs s3)" using a2 by (simp add: s3_def)
  have na3: "\<not> i_aborted (invs s3 ! a)" using r3(3) na by (simp add: v2)
  have pc3: "i_pc (invs s3 ! a) = AwaitBlob (i + 1)" using r3(1) by simp
  note d4 = body_done_decoded [OF a3 pc3 na3, folded step.simps(5) s4_def]
  have e: "run (resume a s) [FetchSettles a (i + 1) RespOk, Resume a, BodyDone a BodyOk] = s4"
    by (simp add: run_def s1_def s2_def s3_def s4_def)
  have au4: "i_audios (invs s4 ! a) = i_audios ?v @
      [\<lparr>a_state = Loading, a_play = PPending, a_revoked = 0, a_resolved = False\<rparr>]"
    using d4(2) r3(2) by (simp add: v2)
  have a4: "a < length (invs s4)" using a3 by (simp add: s4_def)
  show "i_pc (invs (resume a s) ! a) = AwaitResp (i + 1)"
    using v1 by (simp add: s1_def)
  show "i_reported (invs (resume a s) ! a) = i_reported ?v"
    using v1 by (simp add: s1_def)
  show "has_audio (run (resume a s) [FetchSettles a (i + 1) RespOk, Resume a, BodyDone a BodyOk])
      a (i + 1)"
    unfolding e using a4 au4 len by (simp add: has_audio_def)
  show "a_state (the_audio
      (run (resume a s) [FetchSettles a (i + 1) RespOk, Resume a, BodyDone a BodyOk])
      a (i + 1)) = Loading"
    unfolding e using au4 len by (simp add: the_audio_def nth_append)
  show "currentAudio (run (resume a s) [FetchSettles a (i + 1) RespOk, Resume a, BodyDone a BodyOk])
      = Some (a, i + 1)"
    unfolding e using d4(3) by simp
  show "i_pc (invs (run (resume a s) [FetchSettles a (i + 1) RespOk, Resume a, BodyDone a BodyOk])
      ! a) = AwaitPlayback (i + 1)"
    unfolding e using d4(1) by simp
  show "i_reported (invs
      (run (resume a s) [FetchSettles a (i + 1) RespOk, Resume a, BodyDone a BodyOk]) ! a)
      = i_reported ?v"
    unfolding e using d4(4) r3(4) by (simp add: v2)
qed

text \<open>
  Claim C3. In every state the events can lead to: when the fetch an invocation awaits
  for chunk \<open>i\<close> was rejected, or answered with a status that is not OK, the invocation
  returns, the error is reported (a rejection by cancellation apart), and whatever
  happens later it has issued \<open>i + 1\<close> fetches and created \<open>i\<close> audio elements for good.
  When instead chunk \<open>i\<close> is loading or playing and its element fails or its \<open>play()\<close> is
  rejected, the invocation goes on to await chunk \<open>i + 1\<close>, reports nothing, and with an
  OK response and body it creates and starts the audio of chunk \<open>i + 1\<close>.
\<close>

theorem failure_asymmetry:
  assumes "a < length (invs (run tts_init evs))"
  shows
    "(\<forall>i e. i_pc (invs (run tts_init evs) ! a) = AwaitResp i
          \<and> i_fetches (invs (run tts_init evs) ! a) ! i = Rejected e \<longrightarrow>
        i_pc (invs (step (run tts_init evs) (Resume a)) ! a) = Returned
        \<and> (e \<noteq> AbortError \<longrightarrow> i_reported (invs (step (run tts_init evs) (Resume a)) ! a))
        \<and> (\<forall>evs'.
              i_pc (invs (run (step (run tts_init evs) (Resume a)) evs') ! a) = Returned
              \<and> length (i_fetches (invs (run (step (run tts_init evs) (Resume a)) evs') ! a))
                  = i + 1
              \<and> length (i_audios (invs (run (step (run tts_init evs) (Resume a)) evs') ! a))
                  = i))
     \<and> (\<forall>i out. i_pc (invs (run tts_init evs) ! a) = AwaitResp i
          \<and> i_fetches (invs (run tts_init evs) ! a) ! i = Fulfilled False \<longrightarrow>
        i_pc (invs (run (run tts_init evs) [Resume a, BodyDone a out]) ! a) = Returned
        \<and> i_reported (invs (run (run tts_init evs) [Resume a, BodyDone a out]) ! a)
        \<and> (\<forall>evs'.
              i_pc (invs (run (run (run tts_init evs) [Resume a, BodyDone a out]) evs') ! a)
                  = Returned
              \<and> length (i_fetches
                    (invs (run (run (run tts_init evs) [Resume a, BodyDone a out]) evs') ! a))
                  = i + 1
              \<and> length (i_audios
                    (invs (run (run (run tts_init evs) [Resume a, BodyDone a out]) evs') ! a))
                  = i))
     \<and> (\<forall>i ev. i_pc (invs (run tts_init evs) ! a) = AwaitPlayback i
          \<and> \<not> i_aborted (invs (run tts_init evs) ! a)
          \<and> i + 1 < length (i_chunks (invs (run tts_init evs) ! a))
          \<and> \<not> a_resolved (the_audio (run tts_init evs) a i)
          \<and> (ev = AudioError a i
               \<or> ev = PlayRejected a i \<and> a_play (the_audio (run tts_init evs) a i) = PPending)
          \<and> (i_fetches (invs (run tts_init evs) ! a) ! (i + 1) = Pending
               \<or> i_fetches (invs (run tts_init evs) ! a) ! (i + 1) = Fulfilled True) \<longrightarrow>
        i_pc (invs (run (run tts_init evs) [ev, Resume a]) ! a) = AwaitResp (i + 1)
        \<and> i_reported (invs (run (run tts_init evs) [ev, Resume a]) ! a)
            = i_reported (invs (run tts_init evs) ! a)
        \<and> has_audio (run (run tts_init evs)
              [ev, Resume a, FetchSettles a (i + 1) RespOk, Resume a, BodyDone a BodyOk]) a (i + 1)
        \<and> a_state (the_audio (run (run tts_init evs)
              [ev, Resume a, FetchSettles a (i + 1) RespOk, Resume a, BodyDone a BodyOk]) a (i + 1))
            = Loading
        \<and> currentAudio (run (run tts_init evs)
              [ev, Resume a, FetchSettles a (i + 1) RespOk, Resume a, BodyDone a BodyOk])
            = Some (a, i + 1)
        \<and> i_reported (invs (run (run tts_init evs)
              [ev, Resume a, FetchSettles a (i + 1) RespOk, Resume a, BodyDone a BodyOk]) ! a)
            = i_reported (invs (run tts_init evs) ! a))"
proof (intro conjI allI impI; (elim conjE)?)
  let ?s = "run tts_init evs"
  let ?v = "invs ?s ! a"
  note gi = tts_invD [OF reachable_inv assms]
  note g = good_invD [OF gi]
  {
    fix i e
    assume pc: "i_pc ?v = AwaitResp i" and f: "i_fetches ?v ! i = Rejected e"
    have len: "length (i_fetches ?v) = i + 1" "length (i_audios ?v) = i"
      using g(1) pc by (simp_all add: counts_def Let_def)
    have v': "invs (resume a ?s) ! a =
        ?v\<lparr>i_pc := Returned, i_reported := (i_reported ?v \<or> e \<noteq> AbortError)\<rparr>"
      using resume_rejected [OF assms pc _ f] len by simp
    have a': "a < length (invs (resume a ?s))" using assms by simp
    show "i_pc (invs (step ?s (Resume a)) ! a) = Returned" by (simp add: v')
    show "i_reported (invs (step ?s (Resume a)) ! a)" if "e \<noteq> AbortError"
      using that by (simp add: v')
    fix evs'
    have r: "i_pc (invs (resume a ?s) ! a) = Returned" by (simp add: v')
    note rf = returned_forever [OF a' r, of evs']
    show "i_pc (invs (run (step ?s (Resume a)) evs') ! a) = Returned" using rf by simp
    show "length (i_fetches (invs (run (step ?s (Resume a)) evs') ! a)) = i + 1"
      using rf len by (simp add: v')
    show "length (i_audios (invs (run (step ?s (Resume a)) evs') ! a)) = i"
      using rf len by (simp add: v')
  }
  {
    fix i out
    assume pc: "i_pc ?v = AwaitResp i" and f: "i_fetches ?v ! i = Fulfilled False"
    have len: "length (i_fetches ?v) = i + 1" "length (i_audios ?v) = i"
      using g(1) pc by (simp_all add: counts_def Let_def)
    define s1 where "s1 = resume a ?s"
    have v1: "invs s1 ! a = ?v\<lparr>i_pc := AwaitErrBody i\<rparr>"
      unfolding s1_def using resume_bad_response [OF assms pc _ f] len by simp
    have a1: "a < length (invs s1)" using assms by (simp add: s1_def)
    have pc1: "i_pc (invs s1 ! a) = AwaitErrBody i" by (simp add: v1)
    define s2 where "s2 = body_done a out s1"
    have v2: "invs s2 ! a = ?v\<lparr>i_pc := Returned,
        i_fetches := (i_fetches ?v)[i := Consumed], i_reported := True\<rparr>"
      unfolding s2_def using body_done_error_body [OF a1 pc1, of out] by (simp add: v1)
    have e: "run ?s [Resume a, BodyDone a out] = s2"
      by (simp add: run_def s1_def s2_def)
    have a2: "a < length (invs s2)" using a1 by (simp add: s2_def)
    show "i_pc (invs (run ?s [Resume a, BodyDone a out]) ! a) = Returned"
      unfolding e by (simp add: v2)
    show "i_reported (invs (run ?s [Resume a, BodyDone a out]) ! a)"
      unfolding e by (simp add: v2)
    fix evs'
    have r: "i_pc (invs s2 ! a) = Returned" by (simp add: v2)
    note rf = returned_forever [OF a2 r, of evs']
    show "i_pc (invs (run (run ?s [Resume a, BodyDone a out]) evs') ! a) = Returned"
      unfolding e using rf by simp
    show "length (i_fetches (invs (run (run ?s [Resume a, BodyDone a out]) evs') ! a)) = i + 1"
      unfolding e using rf len by (simp add: v2)
    show "length (i_audios (invs (run (run ?s [Resume a, BodyDone a out]) evs') ! a)) = i"
      unfolding e using rf len by (simp add: v2)
  }
  {
    fix i ev
    assume pc: "i_pc ?v = AwaitPlayback i" and na: "\<not> i_aborted ?v"
      and more: "i + 1 < length (i_chunks ?v)"
      and unres: "\<not> a_resolved (the_audio ?s a i)"
      and ev: "ev = AudioError a i \<or> ev = PlayRejected a i \<and> a_play (the_audio ?s a i) = PPending"
      and next_ok: "i_fetches ?v ! (i + 1) = Pending \<or> i_fetches ?v ! (i + 1) = Fulfilled True"
    have len: "length (i_audios ?v) = i + 1" "length (i_fetches ?v) = i + 2"
      using g(1) pc more by (simp_all add: counts_def Let_def)
    have h: "has_audio ?s a i" using assms len by (simp add: has_audio_def)
    have "sounding (the_audio ?s a i)"
      using g(4) [of i] len unres by (auto simp: audio_ok_def Let_def the_audio_def)
    then have live: "a_state (the_audio ?s a i) \<noteq> Ended" "a_state (the_audio ?s a i) \<noteq> Errored"
      by (auto simp: sounding_def)
    define s0 where "s0 = step ?s ev"
    obtain x where v0: "invs s0 ! a = ?v\<lparr>i_audios := (i_audios ?v)[i := x]\<rparr>"
      and x: "a_resolved x" and a0: "a < length (invs s0)"
    proof -
      from ev show ?thesis
      proof
        assume "ev = AudioError a i"
        then show ?thesis
          using that [of "release ((the_audio ?s a i)\<lparr>a_state := Errored\<rparr>)"]
            h live audio_step(1) [OF h] assms
          by (simp add: s0_def release_def)
      next
        assume "ev = PlayRejected a i \<and> a_play (the_audio ?s a i) = PPending"
        then show ?thesis
          using that [of "release (pause ((the_audio ?s a i)\<lparr>a_play := PRejected\<rparr>))"]
            h audio_step(1) [OF h] assms
          by (simp add: s0_def release_def)
      qed
    qed
    have pc0: "i_pc (invs s0 ! a) = AwaitPlayback i" using pc by (simp add: v0)
    have len0: "length (i_audios (invs s0 ! a)) = i + 1" "length (i_fetches (invs s0 ! a)) = i + 2"
      using len by (simp_all add: v0)
    have res0: "a_resolved (i_audios (invs s0 ! a) ! i)" using x len by (simp add: v0)
    have more0: "i + 1 < length (i_chunks (invs s0 ! a))" using more by (simp add: v0)
    have na0: "\<not> i_aborted (invs s0 ! a)" using na by (simp add: v0)
    have nx0: "i_fetches (invs s0 ! a) ! (i + 1) = Pending
        \<or> i_fetches (invs s0 ! a) ! (i + 1) = Fulfilled True"
      using next_ok by (simp add: v0)
    note c = continues_with_next [OF a0 pc0 len0 res0 more0 na0 nx0]
    have e1: "run ?s [ev, Resume a] = resume a s0"
      by (simp add: run_def s0_def)
    have e2: "run ?s [ev, Resume a, FetchSettles a (i + 1) RespOk, Resume a, BodyDone a BodyOk]
        = run (resume a s0) [FetchSettles a (i + 1) RespOk, Resume a, BodyDone a BodyOk]"
      by (simp add: run_def s0_def)
    have rep: "i_reported (invs s0 ! a) = i_reported ?v" by (simp add: v0)
    show "i_pc (invs (run ?s [ev, Resume a]) ! a) = AwaitResp (i + 1)"
      unfolding e1 by (rule c(1))
    show "i_reported (invs (run ?s [ev, Resume a]) ! a) = i_reported ?v"
      unfolding e1 using c(2) rep by simp
    show "has_audio (run ?s
        [ev, Resume a, FetchSettles a (i + 1) RespOk, Resume a, BodyDone a BodyOk]) a (i + 1)"
      unfolding e2 by (rule c(3))
    show "a_state (the_audio (run ?s
        [ev, Resume a, FetchSettles a (i + 1) RespOk, Resume a, BodyDone a BodyOk]) a (i + 1))
        = Loading"
      unfolding e2 by (rule c(4))
    show "currentAudio (run ?s
        [ev, Resume a, FetchSettles a (i + 1) RespOk, Resume a, BodyDone a BodyOk])
        = Some (a, i + 1)"
      unfolding e2 by (rule c(5))
    show "i_reported (invs (run ?s
        [ev, Resume a, FetchSettles a (i + 1) RespOk, Resume a, BodyDone a BodyOk]) ! a)
        = i_reported ?v"
      unfolding e2 using c(7) rep by simp
  }
qed

lemma trace_aborted_part:
  "\<exists>acts. trace (aborted_part s) = trace s @ acts \<and> (\<forall>x\<in>set acts. \<forall>a j. x \<noteq> ActFetch a j)"
  by (cases "ttsAbort s") (auto simp: aborted_part_def abort_def)

lemma trace_stopTTS:
  assumes "tts_inv s"
  shows "\<exists>acts. trace (stopTTS s) = trace s @ acts \<and> (\<forall>x\<in>set acts. \<forall>a j. x \<noteq> ActFetch a j)"
proof -
  obtain acts where t: "trace (aborted_part s) = trace s @ acts"
    and n: "\<forall>x\<in>set acts. \<forall>a j. x \<noteq> ActFetch a j"
    using trace_aborted_part by blast
  let ?more = "(case currentAudio s of Some (a, i) \<Rightarrow> [ActPause a i] | None \<Rightarrow> [])
      @ map ActReset (filter (\<lambda>k. busy (buttons s ! k)) [0..<length (buttons s)])"
  have "trace (stopTTS s) = trace s @ (acts @ ?more)"
    by (simp add: stopTTS_eq [OF assms] t)
  moreover have "\<forall>x\<in>set (acts @ ?more). \<forall>a j. x \<noteq> ActFetch a j"
    using n by (auto split: option.splits)
  ultimately show ?thesis by blast
qed

lemma trace_playTTS:
  "trace (playTTS t b s) = trace (stopTTS s) @ [ActFetch (length (invs (stopTTS s))) 0]"
  by (simp add: playTTS_def Let_def issue_fetch_def)

lemma stopTTS_length:
  assumes "tts_inv s"
  shows "length (invs (stopTTS s)) = length (invs s)"
  by (simp add: stopTTS_simps [OF assms])

lemma stopTTS_cancels:
  assumes "tts_inv s" and "active s p"
  shows "i_aborted (invs (stopTTS s) ! p)" and "Pending \<notin> set (i_fetches (invs (stopTTS s) ! p))"
    and "ActAbort p \<in> set (trace (stopTTS s))"
proof -
  have p: "p < length (invs s)" and na: "\<not> i_aborted (invs s ! p)"
    using assms(2) by (simp_all add: active_def)
  have own: "ttsAbort s = Some p"
    using good_invD(3) [OF tts_invD [OF assms(1) p]] assms(2) by (simp add: active_def)
  have iv: "invs (stopTTS s) ! p =
      (invs s ! p)\<lparr>i_aborted := True, i_fetches := map abort_fetch (i_fetches (invs s ! p)),
        i_audios := map (\<lambda>au. release (pause au)) (i_audios (invs s ! p))\<rparr>"
    using p na own
    by (simp add: stopTTS_simps [OF assms(1)] aborted_part_def abort_def invs_upd_inv)
  show "i_aborted (invs (stopTTS s) ! p)" by (simp add: iv)
  show "Pending \<notin> set (i_fetches (invs (stopTTS s) ! p))"
    by (auto simp: iv abort_fetch_def)
  have "ActAbort p \<in> set (trace (aborted_part s))"
    using p na own by (simp add: aborted_part_def abort_def)
  then show "ActAbort p \<in> set (trace (stopTTS s))"
    by (simp add: stopTTS_eq [OF assms(1)])
qed

lemma stopTTS_silences:
  assumes "tts_inv s" and "has_audio (stopTTS s) a i"
  shows "\<not> sounding (the_audio (stopTTS s) a i)"
proof -
  have a: "a < length (invs s)" and a': "a < length (invs (stopTTS s))"
    and i: "i < length (i_audios (invs (stopTTS s) ! a))"
    using assms(2) by (simp_all add: has_audio_def stopTTS_length [OF assms(1)])
  have "quiet (invs (stopTTS s) ! a)"
    by (rule good_inv_quiet [OF tts_invD [OF stopTTS_inv [OF assms(1)] a']
          stopTTS_inactive [OF assms(1) a]])
  then show ?thesis using i by (simp add: quiet_def the_audio_def)
qed

lemma stopTTS_pauses:
  assumes "tts_inv s" and "has_audio s a i" and "sounding (the_audio s a i)"
  shows "a_state (the_audio (stopTTS s) a i) = Paused"
proof -
  have a: "a < length (invs s)" and i: "i < length (i_audios (invs s ! a))"
    using assms(2) by (simp_all add: has_audio_def)
  have ok: "audio_ok (currentAudio s) a (invs s ! a) i"
    by (rule good_invD(4) [OF tts_invD [OF assms(1) a] i])
  then have "\<not> i_aborted (invs s ! a)" and "i_pc (invs s ! a) \<noteq> Returned"
    using assms(3) by (auto simp: audio_ok_def Let_def the_audio_def)
  then have act: "active s a" using a by (simp add: active_def)
  have own: "ttsAbort s = Some a"
    using good_invD(3) [OF tts_invD [OF assms(1) a]] act by (simp add: active_def)
  have iv: "invs (stopTTS s) ! a =
      (invs s ! a)\<lparr>i_aborted := True, i_fetches := map abort_fetch (i_fetches (invs s ! a)),
        i_audios := map (\<lambda>au. release (pause au)) (i_audios (invs s ! a))\<rparr>"
    using a act own
    by (simp add: stopTTS_simps [OF assms(1)] aborted_part_def abort_def invs_upd_inv active_def)
  show ?thesis
    using assms(3) i
    by (auto simp: the_audio_def iv release_def pause_def sounding_def)
qed

lemma stopTTS_buttons:
  assumes "tts_inv s" and "k < length (buttons s)"
  shows "\<not> busy (buttons (stopTTS s) ! k)"
    and "busy (buttons s ! k) \<Longrightarrow>
         buttons (stopTTS s) ! k = reset_btn (ttsText (buttons s ! k)) (buttons s ! k)"
    and "\<not> busy (buttons s ! k) \<Longrightarrow> buttons (stopTTS s) ! k = buttons s ! k"
  using assms(2) by (simp_all add: stopTTS_simps [OF assms(1)] busy_def reset_btn_def)

lemma playTTS_active:
  assumes "tts_inv s"
  shows "active (playTTS t b s) a \<longleftrightarrow> a = length (invs s)"
proof -
  let ?m = "stopTTS s"
  have len: "length (invs ?m) = length (invs s)" by (rule stopTTS_length [OF assms])
  have iv: "invs (playTTS t b s) = invs ?m @
      [\<lparr>i_text = t, i_btn = b, i_chunks = splitBySentence t, i_aborted = False,
        i_pc = AwaitResp 0, i_fetches = [Pending], i_audios = [], i_reported = False\<rparr>]"
    by (simp add: playTTS_def Let_def issue_fetch_def upd_inv_def upd_btn_def act_def)
  show ?thesis
  proof (cases "a < length (invs s)")
    case True
    then have "inactive (invs (playTTS t b s) ! a)"
      using stopTTS_inactive [OF assms True] by (simp add: iv nth_append len)
    then show ?thesis using True by (auto simp: active_def inactive_def)
  next
    case False
    then show ?thesis by (auto simp: active_def iv nth_append len)
  qed
qed

text \<open>
  Claim C1. In every state the events can lead to, a call of \<open>playTTS\<close> first runs
  \<open>stopTTS\<close>, whose actions (abort, pause, button resets) all come before the first fetch
  of the new invocation. After \<open>stopTTS\<close> an invocation that was active is cancelled (its
  signal is aborted and none of its fetches is pending), \<open>currentAudio\<close> is dropped, no
  audio element loads or plays and the one that did is paused, and no button is in its
  playing or loading state: those that were are reset to play. Then no invocation is
  active, and after \<open>playTTS\<close> exactly the new one is, with its fetch for chunk 0 pending.
  At any time at most one invocation is active and at most one audio element audible.
\<close>

theorem narration_switch:
  "(\<exists>acts. trace (stopTTS (run tts_init evs)) = trace (run tts_init evs) @ acts
       \<and> (\<forall>x\<in>set acts. \<forall>a j. x \<noteq> ActFetch a j)
       \<and> trace (playTTS t b (run tts_init evs)) =
           trace (run tts_init evs) @ acts @ [ActFetch (length (invs (run tts_init evs))) 0])
   \<and> (\<forall>p. active (run tts_init evs) p \<longrightarrow>
         ActAbort p \<in> set (trace (stopTTS (run tts_init evs)))
         \<and> i_aborted (invs (stopTTS (run tts_init evs)) ! p)
         \<and> Pending \<notin> set (i_fetches (invs (stopTTS (run tts_init evs)) ! p)))
   \<and> currentAudio (stopTTS (run tts_init evs)) = None
   \<and> (\<forall>a i. has_audio (stopTTS (run tts_init evs)) a i \<longrightarrow>
         \<not> sounding (the_audio (stopTTS (run tts_init evs)) a i))
   \<and> (\<forall>a i. has_audio (run tts_init evs) a i \<and> sounding (the_audio (run tts_init evs) a i) \<longrightarrow>
         a_state (the_audio (stopTTS (run tts_init evs)) a i) = Paused)
   \<and> (\<forall>k < length (buttons (run tts_init evs)).
         \<not> busy (buttons (stopTTS (run tts_init evs)) ! k)
         \<and> (busy (buttons (run tts_init evs) ! k) \<longrightarrow>
              buttons (stopTTS (run tts_init evs)) ! k =
                reset_btn (ttsText (buttons (run tts_init evs) ! k)) (buttons (run tts_init evs) ! k)))
   \<and> (\<forall>a. \<not> active (stopTTS (run tts_init evs)) a)
   \<and> (\<forall>a. active (playTTS t b (run tts_init evs)) a \<longleftrightarrow> a = length (invs (run tts_init evs)))
   \<and> i_fetches (invs (playTTS t b (run tts_init evs)) ! length (invs (run tts_init evs)))
        = [Pending]
   \<and> (\<forall>a a'. active (run tts_init evs) a \<and> active (run tts_init evs) a' \<longrightarrow> a = a')
   \<and> (\<forall>a i a' i'. audible (run tts_init evs) a i \<and> audible (run tts_init evs) a' i' \<longrightarrow>
         a = a' \<and> i = i')"
proof -
  let ?s = "run tts_init evs"
  note inv = reachable_inv [of evs]
  have len: "length (invs (stopTTS ?s)) = length (invs ?s)" by (rule stopTTS_length [OF inv])
  obtain acts where t: "trace (stopTTS ?s) = trace ?s @ acts"
    and n: "\<forall>x\<in>set acts. \<forall>a j. x \<noteq> ActFetch a j"
    using trace_stopTTS [OF inv] by blast
  have 1: "\<exists>acts. trace (stopTTS ?s) = trace ?s @ acts
       \<and> (\<forall>x\<in>set acts. \<forall>a j. x \<noteq> ActFetch a j)
       \<and> trace (playTTS t b ?s) = trace ?s @ acts @ [ActFetch (length (invs ?s)) 0]"
    using t n by (simp add: trace_playTTS len)
  have 2: "\<forall>p. active ?s p \<longrightarrow>
         ActAbort p \<in> set (trace (stopTTS ?s))
         \<and> i_aborted (invs (stopTTS ?s) ! p)
         \<and> Pending \<notin> set (i_fetches (invs (stopTTS ?s) ! p))"
    using stopTTS_cancels [OF inv] by blast
  have 3: "currentAudio (stopTTS ?s) = None" by (simp add: stopTTS_simps [OF inv])
  have 4: "\<forall>a i. has_audio (stopTTS ?s) a i \<longrightarrow> \<not> sounding (the_audio (stopTTS ?s) a i)"
    using stopTTS_silences [OF inv] by blast
  have 5: "\<forall>a i. has_audio ?s a i \<and> sounding (the_audio ?s a i) \<longrightarrow>
         a_state (the_audio (stopTTS ?s) a i) = Paused"
    using stopTTS_pauses [OF inv] by blast
  have 6: "\<forall>k < length (buttons ?s).
         \<not> busy (buttons (stopTTS ?s) ! k)
         \<and> (busy (buttons ?s ! k) \<longrightarrow>
              buttons (stopTTS ?s) ! k = reset_btn (ttsText (buttons ?s ! k)) (buttons ?s ! k))"
    using stopTTS_buttons(1,2) [OF inv] by blast
  have 7: "\<forall>a. \<not> active (stopTTS ?s) a"
    using stopTTS_inactive [OF inv] len by (auto simp: active_def inactive_def)
  have 8: "\<forall>a. active (playTTS t b ?s) a \<longleftrightarrow> a = length (invs ?s)"
    using playTTS_active [OF inv] by blast
  have 9: "i_fetches (invs (playTTS t b ?s) ! length (invs ?s)) = [Pending]"
    by (simp add: playTTS_new)
  have 10: "\<forall>a a'. active ?s a \<and> active ?s a' \<longrightarrow> a = a'"
    using active_unique [OF inv] by blast
  have 11: "\<forall>a i a' i'. audible ?s a i \<and> audible ?s a' i' \<longrightarrow> a = a' \<and> i = i'"
    using sounding_unique [OF inv] by (auto simp: audible_def sounding_def)
  show ?thesis
    using 1 2 3 4 5 6 7 8 9 10 11 by (intro conjI)
qed

lemmas tts_eval = run_def tts_init_def playTTS_def stopTTS_def abort_def issue_fetch_def
  upd_inv_def upd_audio_def upd_btn_def act_def resume_def body_done_def loop_head_def
  after_loop_def catch_block_def resetTTSBtn_def reset_btn_def makeTTSButton_def busy_def
  settle_def has_audio_def the_audio_def release_def pause_def abort_fetch_def Let_def
  splitBySentence_def str_def is_terminator_def terminators_def trim_def is_space_def
  js_whitespace_def three_def

lemma response_state:
  "run tts_init evs_response =
   \<lparr>ttsAbort = Some 0, currentAudio = None,
     buttons = [\<lparr>ttsText = three, disabled = True, playing = False, loading = True,
                 face = FaceLoading, onclick = DoPlay three\<rparr>],
     invs = [\<lparr>i_text = three, i_btn = 0, i_chunks = [str ''Hi!'', str ''Yo?'', str ''Ok''],
              i_aborted = False, i_pc = AwaitResp 0, i_fetches = [Fulfilled True],
              i_audios = [], i_reported = False\<rparr>],
     trace = [ActFetch 0 0]\<rparr>"
  by (simp add: evs_response_def tts_eval)

lemma network_failure_state:
  "run tts_init evs_network_failure =
   \<lparr>ttsAbort = Some 0, currentAudio = None,
     buttons = [\<lparr>ttsText = three, disabled = True, playing = False, loading = True,
                 face = FaceLoading, onclick = DoPlay three\<rparr>],
     invs = [\<lparr>i_text = three, i_btn = 0, i_chunks = [str ''Hi!'', str ''Yo?'', str ''Ok''],
              i_aborted = False, i_pc = AwaitResp 0, i_fetches = [Rejected OtherError],
              i_audios = [], i_reported = False\<rparr>],
     trace = [ActFetch 0 0]\<rparr>"
  by (simp add: evs_network_failure_def tts_eval)

lemma bad_status_state:
  "run tts_init evs_bad_status =
   \<lparr>ttsAbort = Some 0, currentAudio = None,
     buttons = [\<lparr>ttsText = three, disabled = True, playing = False, loading = True,
                 face = FaceLoading, onclick = DoPlay three\<rparr>],
     invs = [\<lparr>i_text = three, i_btn = 0, i_chunks = [str ''Hi!'', str ''Yo?'', str ''Ok''],
              i_aborted = False, i_pc = AwaitResp 0, i_fetches = [Fulfilled False],
              i_audios = [], i_reported = False\<rparr>],
     trace = [ActFetch 0 0]\<rparr>"
  by (simp add: evs_bad_status_def tts_eval)

lemma playing_state:
  "run tts_init evs_playing =
   \<lparr>ttsAbort = Some 0, currentAudio = Some (0, 0),
     buttons = [\<lparr>ttsText = three, disabled = False, playing = True, loading = False,
                 face = FaceStop, onclick = DoStop\<rparr>],
     invs = [\<lparr>i_text = three, i_btn = 0, i_chunks = [str ''Hi!'', str ''Yo?'', str ''Ok''],
              i_aborted = False, i_pc = AwaitPlayback 0, i_fetches = [Consumed, Pending],
              i_audios = [\<lparr>a_state = Playing, a_play = PResolved, a_revoked = 0,
                            a_resolved = False\<rparr>],
              i_reported = False\<rparr>],
     trace = [ActFetch 0 0, ActFetch 0 1]\<rparr>"
  by (simp add: evs_playing_def tts_eval)

lemma finished_state:
  "run tts_init evs_finished =
   \<lparr>ttsAbort = Some 0, currentAudio = None,
     buttons = [\<lparr>ttsText = str ''Hi'', disabled = False, playing = False, loading = False,
                 face = FacePlay, onclick = DoPlay (str ''Hi'')\<rparr>],
     invs = [\<lparr>i_text = str ''Hi'', i_btn = 0, i_chunks = [str ''Hi''], i_aborted = False,
              i_pc = Returned, i_fetches = [Consumed],
              i_audios = [\<lparr>a_state = Ended, a_play = PResolved, a_revoked = 1,
                            a_resolved = True\<rparr>],
              i_reported = False\<rparr>],
     trace = [ActFetch 0 0]\<rparr>"
  by (simp add: evs_finished_def tts_eval)

text \<open>A new narration while the first chunk of a three-sentence message is playing.\<close>

theorem narration_switch_witness:
  "active (run tts_init evs_playing) 0
   \<and> audible (run tts_init evs_playing) 0 0
   \<and> busy (buttons (run tts_init evs_playing) ! 0)
   \<and> ActAbort 0 \<in> set (trace (stopTTS (run tts_init evs_playing)))
   \<and> i_aborted (invs (stopTTS (run tts_init evs_playing)) ! 0)
   \<and> Pending \<notin> set (i_fetches (invs (stopTTS (run tts_init evs_playing)) ! 0))
   \<and> a_state (the_audio (stopTTS (run tts_init evs_playing)) 0 0) = Paused
   \<and> \<not> busy (buttons (stopTTS (run tts_init evs_playing)) ! 0)
   \<and> \<not> active (playTTS (str ''Yo'') 1 (run tts_init evs_playing)) 0
   \<and> active (playTTS (str ''Yo'') 1 (run tts_init evs_playing)) 1"
proof -
  have h: "active (run tts_init evs_playing) 0" "audible (run tts_init evs_playing) 0 0"
    "busy (buttons (run tts_init evs_playing) ! 0)"
    "has_audio (run tts_init evs_playing) 0 0"
    "sounding (the_audio (run tts_init evs_playing) 0 0)"
    "0 < length (buttons (run tts_init evs_playing))"
    "length (invs (run tts_init evs_playing)) = 1"
    by (simp_all add: playing_state active_def audible_def has_audio_def the_audio_def busy_def
        sounding_def)
  note n = narration_switch [of evs_playing "str ''Yo''" 1]
  have "ActAbort 0 \<in> set (trace (stopTTS (run tts_init evs_playing)))
      \<and> i_aborted (invs (stopTTS (run tts_init evs_playing)) ! 0)
      \<and> Pending \<notin> set (i_fetches (invs (stopTTS (run tts_init evs_playing)) ! 0))"
    using n h(1) by blast
  moreover have "a_state (the_audio (stopTTS (run tts_init evs_playing)) 0 0) = Paused"
    using n h(4,5) by blast
  moreover have "\<not> busy (buttons (stopTTS (run tts_init evs_playing)) ! 0)"
    using n h(6) by blast
  moreover have "\<forall>a. active (playTTS (str ''Yo'') 1 (run tts_init evs_playing)) a \<longleftrightarrow> a = 1"
    using n h(7) by simp
  ultimately show ?thesis using h(1,2,3) by simp
qed

text \<open>The first response of a three-sentence message, and its first chunk playing.\<close>

theorem prefetch_order_witness:
  "i_pc (invs (run tts_init evs_response) ! 0) = AwaitResp 0
   \<and> i_fetches (invs (run tts_init evs_response) ! 0) ! 0 = Fulfilled True
   \<and> 0 + 1 < length (i_chunks (invs (run tts_init evs_response) ! 0))
   \<and> length (i_fetches (invs (step (run tts_init evs_response) (Resume 0)) ! 0)) = 2
   \<and> length (i_audios (invs (step (run tts_init evs_response) (Resume 0)) ! 0)) = 0
   \<and> 0 < length (i_audios (invs (run tts_init evs_playing) ! 0))
   \<and> 0 + 1 < length (i_fetches (invs (run tts_init evs_playing) ! 0))"
proof -
  have a: "0 < length (invs (run tts_init evs_response))"
    and h: "i_pc (invs (run tts_init evs_response) ! 0) = AwaitResp 0"
      "i_fetches (invs (run tts_init evs_response) ! 0) ! 0 = Fulfilled True"
      "0 + 1 < length (i_chunks (invs (run tts_init evs_response) ! 0))"
    by (simp_all add: response_state)
  have b: "0 < length (invs (run tts_init evs_playing))"
    and k: "0 < length (i_audios (invs (run tts_init evs_playing) ! 0))"
      "0 + 1 < length (i_chunks (invs (run tts_init evs_playing) ! 0))"
    by (simp_all add: playing_state)
  have "length (i_fetches (invs (step (run tts_init evs_response) (Resume 0)) ! 0)) = 0 + 2
      \<and> length (i_audios (invs (step (run tts_init evs_response) (Resume 0)) ! 0)) = 0"
    using prefetch_order [OF a] h by blast
  moreover have "0 + 1 < length (i_fetches (invs (run tts_init evs_playing) ! 0))"
    using prefetch_order [OF b] k by blast
  ultimately show ?thesis using h k by simp
qed

text \<open>A network failure, a bad status, and a playback error on the first chunk.\<close>

theorem failure_asymmetry_witness:
  "i_pc (invs (run tts_init evs_network_failure) ! 0) = AwaitResp 0
   \<and> i_fetches (invs (run tts_init evs_network_failure) ! 0) ! 0 = Rejected OtherError
   \<and> i_pc (invs (step (run tts_init evs_network_failure) (Resume 0)) ! 0) = Returned
   \<and> i_reported (invs (step (run tts_init evs_network_failure) (Resume 0)) ! 0)
   \<and> i_fetches (invs (run tts_init evs_bad_status) ! 0) ! 0 = Fulfilled False
   \<and> i_reported (invs (run (run tts_init evs_bad_status) [Resume 0, BodyDone 0 BodyOk]) ! 0)
   \<and> i_pc (invs (run tts_init evs_playing) ! 0) = AwaitPlayback 0
   \<and> \<not> a_resolved (the_audio (run tts_init evs_playing) 0 0)
   \<and> i_pc (invs (run (run tts_init evs_playing) [AudioError 0 0, Resume 0]) ! 0) = AwaitResp 1
   \<and> \<not> i_reported (invs (run (run tts_init evs_playing)
          [AudioError 0 0, Resume 0, FetchSettles 0 (0 + 1) RespOk, Resume 0, BodyDone 0 BodyOk]) ! 0)
   \<and> a_state (the_audio (run (run tts_init evs_playing)
          [AudioError 0 0, Resume 0, FetchSettles 0 (0 + 1) RespOk, Resume 0, BodyDone 0 BodyOk])
          0 (0 + 1)) = Loading"
proof -
  have a: "0 < length (invs (run tts_init evs_network_failure))"
    and h: "i_pc (invs (run tts_init evs_network_failure) ! 0) = AwaitResp 0"
      "i_fetches (invs (run tts_init evs_network_failure) ! 0) ! 0 = Rejected OtherError"
    by (simp_all add: network_failure_state)
  have b: "0 < length (invs (run tts_init evs_bad_status))"
    and k: "i_pc (invs (run tts_init evs_bad_status) ! 0) = AwaitResp 0"
      "i_fetches (invs (run tts_init evs_bad_status) ! 0) ! 0 = Fulfilled False"
    by (simp_all add: bad_status_state)
  have c: "0 < length (invs (run tts_init evs_playing))"
    and p: "i_pc (invs (run tts_init evs_playing) ! 0) = AwaitPlayback 0"
      "\<not> i_aborted (invs (run tts_init evs_playing) ! 0)"
      "0 + 1 < length (i_chunks (invs (run tts_init evs_playing) ! 0))"
      "\<not> a_resolved (the_audio (run tts_init evs_playing) 0 0)"
      "i_fetches (invs (run tts_init evs_playing) ! 0) ! (0 + 1) = Pending"
      "\<not> i_reported (invs (run tts_init evs_playing) ! 0)"
    by (simp_all add: playing_state the_audio_def)
  have 1: "i_pc (invs (step (run tts_init evs_network_failure) (Resume 0)) ! 0) = Returned
      \<and> i_reported (invs (step (run tts_init evs_network_failure) (Resume 0)) ! 0)"
    using failure_asymmetry [OF a] h by blast
  have 2: "i_reported (invs (run (run tts_init evs_bad_status) [Resume 0, BodyDone 0 BodyOk]) ! 0)"
    using failure_asymmetry [OF b] k by blast
  have 3: "i_pc (invs (run (run tts_init evs_playing) [AudioError 0 0, Resume 0]) ! 0)
        = AwaitResp (0 + 1)
      \<and> i_reported (invs (run (run tts_init evs_playing)
          [AudioError 0 0, Resume 0, FetchSettles 0 (0 + 1) RespOk, Resume 0, BodyDone 0 BodyOk]) ! 0)
        = i_reported (invs (run tts_init evs_playing) ! 0)
      \<and> a_state (the_audio (run (run tts_init evs_playing)
          [AudioError 0 0, Resume 0, FetchSettles 0 (0 + 1) RespOk, Resume 0, BodyDone 0 BodyOk])
          0 (0 + 1)) = Loading"
    using failure_asymmetry [OF c] p(1-5) by blast
  show ?thesis using h k(2) p(1,4,6) 1 2 3 by simp
qed

text \<open>The first chunk playing, and a one-sentence message narrated to its end.\<close>

theorem url_released_witness:
  "has_audio (run tts_init evs_playing) 0 0
   \<and> a_state (the_audio (run tts_init evs_playing) 0 0) = Playing
   \<and> a_revoked (the_audio (run tts_init evs_playing) 0 0) = 0
   \<and> a_revoked (the_audio (step (run tts_init evs_playing) (AudioEnded 0 0)) 0 0) = 1
   \<and> a_revoked (the_audio (abort 0 (run tts_init evs_playing)) 0 0) = 1
   \<and> has_audio (run tts_init evs_finished) 0 0
   \<and> \<not> sounding (the_audio (run tts_init evs_finished) 0 0)
   \<and> 0 < a_revoked (the_audio (run tts_init evs_finished) 0 0)"
proof -
  have h: "has_audio (run tts_init evs_playing) 0 0"
    "a_state (the_audio (run tts_init evs_playing) 0 0) = Playing"
    "a_revoked (the_audio (run tts_init evs_playing) 0 0) = 0"
    "\<not> i_aborted (invs (run tts_init evs_playing) ! 0)"
    by (simp_all add: playing_state has_audio_def the_audio_def)
  have k: "has_audio (run tts_init evs_finished) 0 0"
    "\<not> sounding (the_audio (run tts_init evs_finished) 0 0)"
    by (simp_all add: finished_state has_audio_def the_audio_def sounding_def)
  have 1: "a_revoked (the_audio (step (run tts_init evs_playing) (AudioEnded 0 0)) 0 0)
      = a_revoked (the_audio (run tts_init evs_playing) 0 0) + 1"
    using url_released [OF h(1)] h(2) by blast
  have 2: "a_revoked (the_audio (abort 0 (run tts_init evs_playing)) 0 0)
      = a_revoked (the_audio (run tts_init evs_playing) 0 0) + 1"
    using url_released [OF h(1)] h(4) by blast
  have 3: "0 < a_revoked (the_audio (run tts_init evs_finished) 0 0)"
    using url_released [OF k(1)] k(2) by blast
  show ?thesis using h k 1 2 3 by simp
qed

text \<open>
  Claim C4 as stated fails in the count of calls: after a narration has played to its
  end (one revocation, by \<open>onended\<close>), clicking play again aborts the old controller,
  whose \<open>abort\<close> listener is still registered and revokes the same URL a second time.
\<close>

theorem revoked_twice_counterexample:
  "a_state (the_audio (run tts_init evs_finished) 0 0) = Ended
   \<and> a_revoked (the_audio (run tts_init evs_finished) 0 0) = 1
   \<and> a_revoked (the_audio (run tts_init (evs_finished @ [Click 0])) 0 0) = 2"
proof -
  have e: "run tts_init (evs_finished @ [Click 0]) = step (run tts_init evs_finished) (Click 0)"
    by (simp add: run_def)
  show ?thesis
    unfolding e finished_state by (simp add: tts_eval)
qed

end
